theory Spec2Isabelle
  imports Complex_Main "HOL-Library.AList"
begin

section \<open>Values: what a decoded property list or JSON document holds\<close>

text \<open>
  The scripts work on the values that \<^verbatim>\<open>plistlib.load\<close> and \<^verbatim>\<open>json.load\<close> return. A
  dictionary is an association list in insertion order (its keys are strings, and
  distinct in every dictionary Python builds); a float is the real number it denotes;
  a date is its time stamp. Strings are lists of 8-bit characters, so the model reads
  a string as ASCII text.
\<close>

datatype pv =
    PStr string
  | PInt int
  | PBool bool
  | PReal real
  | PBytes string
  | PDate nat
  | PNone
  | PList "pv list"
  | PDict "(string \<times> pv) list"

text \<open>The exceptions the modelled code can raise.\<close>

datatype error = LoadError | AttributeError | TypeError

text \<open>\<^verbatim>\<open>d.get(key, default)\<close> on a dictionary.\<close>

definition dict_get :: "(string \<times> pv) list \<Rightarrow> string \<Rightarrow> pv \<Rightarrow> pv" where
  "dict_get d k dflt = (case map_of d k of None \<Rightarrow> dflt | Some v \<Rightarrow> v)"

text \<open>\<^verbatim>\<open>hash(v)\<close> raises TypeError on a list and on a dictionary.\<close>

fun hashable :: "pv \<Rightarrow> bool" where
  "hashable (PList xs) = False"
| "hashable (PDict kvs) = False"
| "hashable v = True"

text \<open>
  Python's \<^verbatim>\<open>==\<close> on hashable values: numbers (integers, booleans, floats) are equal
  when their values are; values of different kinds are different otherwise.
\<close>

fun num_value :: "pv \<Rightarrow> real option" where
  "num_value (PInt i) = Some (of_int i)"
| "num_value (PBool b) = Some (if b then 1 else 0)"
| "num_value (PReal r) = Some r"
| "num_value v = None"

definition py_eq :: "pv \<Rightarrow> pv \<Rightarrow> bool" where
  "py_eq a b = (case num_value a of
                  Some x \<Rightarrow> (case num_value b of Some y \<Rightarrow> x = y | None \<Rightarrow> False)
                | None \<Rightarrow> (case num_value b of Some y \<Rightarrow> False | None \<Rightarrow> a = b))"

text \<open>\<^verbatim>\<open>bool(v)\<close>.\<close>

fun truthy :: "pv \<Rightarrow> bool" where
  "truthy (PStr s) = (s \<noteq> [])"
| "truthy (PInt i) = (i \<noteq> 0)"
| "truthy (PBool b) = b"
| "truthy (PReal r) = (r \<noteq> 0)"
| "truthy (PBytes b) = (b \<noteq> [])"
| "truthy (PDate t) = True"
| "truthy PNone = False"
| "truthy (PList xs) = (xs \<noteq> [])"
| "truthy (PDict kvs) = (kvs \<noteq> [])"

text \<open>\<^verbatim>\<open>len(v)\<close>: defined on strings, bytes, lists and dictionaries.\<close>

fun py_len :: "pv \<Rightarrow> error + nat" where
  "py_len (PStr s) = Inr (length s)"
| "py_len (PBytes b) = Inr (length b)"
| "py_len (PList xs) = Inr (length xs)"
| "py_len (PDict kvs) = Inr (length kvs)"
| "py_len v = Inl TypeError"

subsection \<open>Strings\<close>

text \<open>\<^verbatim>\<open>sub in s\<close> on strings: \<open>sub\<close> occurs in \<open>s\<close> as a contiguous run.\<close>

fun starts_with :: "string \<Rightarrow> string \<Rightarrow> bool" where
  "starts_with s [] = True"
| "starts_with [] (p # ps) = False"
| "starts_with (c # cs) (p # ps) = (c = p \<and> starts_with cs ps)"

fun contains :: "string \<Rightarrow> string \<Rightarrow> bool" where
  "contains sub [] = (sub = [])"
| "contains sub (c # cs) = (starts_with (c # cs) sub \<or> contains sub cs)"

text \<open>\<^verbatim>\<open>s.lower()\<close> on ASCII text.\<close>

definition lower_char :: "char \<Rightarrow> char" where
  "lower_char c =
     (case map_of (zip ''ABCDEFGHIJKLMNOPQRSTUVWXYZ'' ''abcdefghijklmnopqrstuvwxyz'') c of
        None \<Rightarrow> c
      | Some l \<Rightarrow> l)"

definition lower :: "string \<Rightarrow> string" where
  "lower s = map lower_char s"

text \<open>\<^verbatim>\<open>s.split('.')\<close>: the segments between the dots, at least one.\<close>

fun split_dot :: "string \<Rightarrow> string list" where
  "split_dot [] = [[]]"
| "split_dot (c # cs) =
     (if c = CHR ''.'' then [] # split_dot cs
      else (case split_dot cs of [] \<Rightarrow> [[c]] | seg # segs \<Rightarrow> (c # seg) # segs))"

text \<open>\<^verbatim>\<open>s.replace('.', '_')\<close>.\<close>

definition replace_dots :: "string \<Rightarrow> string" where
  "replace_dots s = map (\<lambda>c. if c = CHR ''.'' then CHR ''_'' else c) s"

section \<open>analyze\_kexts.py: the record of one bundle\<close>

text \<open>
  The dictionary \<^verbatim>\<open>result\<close> that \<^verbatim>\<open>parse_plist_file\<close> builds has a fixed set of keys, so
  it is a record. \<^verbatim>\<open>bundle_id\<close> is a string whenever the function returns a record
  (the \<^verbatim>\<open>split\<close> on it has succeeded); the name, the version and the executable are
  whatever the property list holds. \<^verbatim>\<open>list(set(...))\<close> leaves the order of
  \<^verbatim>\<open>iokit_classes\<close> to the hash order, so the field is the set of its elements.
\<close>

record kext =
  path :: string
  bundle_id :: string
  name :: pv
  version :: pv
  executable :: pv
  kext_name :: string
  source_type :: string
  dependencies :: "pv list"
  libraries :: "pv list"
  iokit_classes :: "pv set"
  provides :: "pv list"

text \<open>
  Lines 39-44 and 49-54: the requirement field and the library field, applied to the
  result of \<^verbatim>\<open>data.get(key, {})\<close>.
\<close>

fun keys_or_list :: "pv \<Rightarrow> pv list" where
  "keys_or_list (PDict kvs) = map (\<lambda>kv. PStr (fst kv)) kvs"
| "keys_or_list (PList xs) = xs"
| "keys_or_list v = []"

text \<open>\<^verbatim>\<open>'IOClass' in value\<close>, and \<^verbatim>\<open>value.get('IOClass')\<close>.\<close>

fun in_value :: "string \<Rightarrow> pv \<Rightarrow> error + bool" where
  "in_value k (PDict kvs) = Inr (k \<in> fst ` set kvs)"
| "in_value k (PList xs) = Inr (PStr k \<in> set xs)"
| "in_value k (PStr s) = Inr (contains k s)"
| "in_value k v = Inl TypeError"

fun value_get :: "pv \<Rightarrow> string \<Rightarrow> error + pv" where
  "value_get (PDict kvs) k = Inr (dict_get kvs k PNone)"
| "value_get v k = Inl AttributeError"

text \<open>Lines 60-64: the loop over the personalities.\<close>

fun iokit_loop :: "(string \<times> pv) list \<Rightarrow> pv list \<Rightarrow> error + pv list" where
  "iokit_loop [] iokit_services = Inr iokit_services"
| "iokit_loop ((key, val) # rest) iokit_services =
     (case in_value ''IOClass'' val of
        Inl e \<Rightarrow> Inl e
      | Inr False \<Rightarrow> iokit_loop rest iokit_services
      | Inr True \<Rightarrow>
          (case value_get val ''IOClass'' of
             Inl e \<Rightarrow> Inl e
           | Inr v \<Rightarrow> iokit_loop rest (iokit_services @ [v])))"

text \<open>
  \<^verbatim>\<open>set(xs)\<close>: TypeError when an element cannot be hashed; otherwise one element of
  each class of equal elements, the first inserted.
\<close>

fun py_set :: "pv list \<Rightarrow> pv list" where
  "py_set [] = []"
| "py_set (x # xs) = x # filter (\<lambda>y. \<not> py_eq x y) (py_set xs)"

definition iokit_classes_of :: "pv \<Rightarrow> error + pv set" where
  "iokit_classes_of iokit_personalities =
     (case (case iokit_personalities of
              PDict kvs \<Rightarrow> iokit_loop kvs []
            | _ \<Rightarrow> Inr []) of
        Inl e \<Rightarrow> Inl e
      | Inr iokit_services \<Rightarrow>
          if list_all hashable iokit_services then Inr (set (py_set iokit_services))
          else Inl TypeError)"

text \<open>Lines 68-70: the provider classes.\<close>

definition provides_of :: "pv \<Rightarrow> pv list" where
  "provides_of p = (case p of PList xs \<Rightarrow> xs | _ \<Rightarrow> if truthy p then [p] else [])"

text \<open>
  The body of the \<^verbatim>\<open>try\<close> of \<^verbatim>\<open>parse_plist_file\<close>, lines 28-72, on the value \<open>data\<close>
  that \<^verbatim>\<open>plistlib.load\<close> returned. \<^verbatim>\<open>data.get\<close> raises AttributeError on a value
  that is no dictionary, and so does \<^verbatim>\<open>.split\<close> on an identifier that is no string
  (TypeError on bytes).
\<close>

definition parse_body :: "string \<Rightarrow> pv \<Rightarrow> error + kext" where
  "parse_body plist_path data =
     (case data of
        PDict d \<Rightarrow>
          (case dict_get d ''CFBundleIdentifier'' (PStr []) of
             PStr ident \<Rightarrow>
               (case iokit_classes_of (dict_get d ''IOKitPersonalities'' (PDict [])) of
                  Inl e \<Rightarrow> Inl e
                | Inr classes \<Rightarrow>
                    Inr \<lparr> path = plist_path,
                          bundle_id = ident,
                          name = dict_get d ''CFBundleName'' (PStr []),
                          version = dict_get d ''CFBundleVersion'' (PStr []),
                          executable = dict_get d ''CFBundleExecutable'' (PStr []),
                          kext_name = last (split_dot ident),
                          source_type = ''kext'',
                          dependencies = keys_or_list (dict_get d ''OSBundleRequirements'' (PDict [])),
                          libraries = keys_or_list (dict_get d ''OSBundleLibraries'' (PDict [])),
                          iokit_classes = classes,
                          provides = provides_of (dict_get d ''IOProviderClass'' (PList [])) \<rparr>)
           | PBytes b \<Rightarrow> Inl TypeError
           | _ \<Rightarrow> Inl AttributeError)
      | _ \<Rightarrow> Inl AttributeError)"

text \<open>
  \<^verbatim>\<open>parse_plist_file\<close>: \<open>loaded\<close> is what opening and decoding the file gave, an
  exception or a value. Every exception, of the decoder or of the body, is caught
  (and printed); the function then returns \<^verbatim>\<open>None\<close>.
\<close>

definition parse_plist_file :: "string \<Rightarrow> error + pv \<Rightarrow> kext option" where
  "parse_plist_file plist_path loaded =
     (case loaded of
        Inl e \<Rightarrow> None
      | Inr data \<Rightarrow>
          (case parse_body plist_path data of
             Inl e \<Rightarrow> None
           | Inr result \<Rightarrow> Some result))"

text \<open>
  \<^verbatim>\<open>scan_kexts_only\<close>, lines 98-104: \<open>plist_files\<close> lists the files found, each with
  the outcome of decoding it. \<^verbatim>\<open>kexts[bundle_id] = data\<close> keeps the position of a key
  that is already there and replaces its value.
\<close>

fun scan_loop ::
  "(string \<times> (error + pv)) list \<Rightarrow> (string \<times> kext) list \<Rightarrow> (string \<times> kext) list" where
  "scan_loop [] kexts = kexts"
| "scan_loop ((plist_path, loaded) # rest) kexts =
     (case parse_plist_file plist_path loaded of
        None \<Rightarrow> scan_loop rest kexts
      | Some data \<Rightarrow>
          if bundle_id data \<noteq> [] then scan_loop rest (AList.update (bundle_id data) data kexts)
          else scan_loop rest kexts)"

definition scan_kexts_only :: "(string \<times> (error + pv)) list \<Rightarrow> (string \<times> kext) list" where
  "scan_kexts_only plist_files = scan_loop plist_files []"

section \<open>analyze\_kexts.py: the dependency graph\<close>

text \<open>
  \<^verbatim>\<open>create_graphml\<close> takes the dictionary \<open>kexts\<close> of \<^verbatim>\<open>scan_kexts_only\<close>. An edge of the
  graph is the triple of the source's bundle id, the target's bundle id and the kind;
  the XML element written for it carries the two ids with their dots replaced and the
  label of the kind. \<^verbatim>\<open>edges_added\<close> is the set of (source, target) pairs of the code.
\<close>

datatype edge_kind = Depends | UsesLibrary

fun edge_label :: "edge_kind \<Rightarrow> string" where
  "edge_label Depends = ''depends''"
| "edge_label UsesLibrary = ''uses library''"

type_synonym edge = "string \<times> string \<times> edge_kind"

record graph_state =
  edges :: "edge list"
  edges_added :: "(string \<times> string) set"

text \<open>
  Lines 145-152 and 155-162: one inner loop, over \<^verbatim>\<open>dependencies\<close> with the kind
  \<open>Depends\<close> and over \<^verbatim>\<open>libraries\<close> with \<open>UsesLibrary\<close>. \<^verbatim>\<open>dep in kexts\<close> hashes \<open>dep\<close>
  (TypeError on a list or a dictionary); the keys of \<open>kexts\<close> are strings, so only a
  string can be among them.
\<close>

fun add_edges ::
  "(string \<times> kext) list \<Rightarrow> string \<Rightarrow> edge_kind \<Rightarrow> pv list \<Rightarrow> graph_state \<Rightarrow> error + graph_state"
where
  "add_edges kexts bid k [] st = Inr st"
| "add_edges kexts bid k (dep # deps) st =
     (if \<not> hashable dep then Inl TypeError
      else (case dep of
              PStr d \<Rightarrow>
                if d \<in> fst ` set kexts \<and> (bid, d) \<notin> edges_added st
                then add_edges kexts bid k deps
                       (st\<lparr> edges := edges st @ [(bid, d, k)],
                            edges_added := insert (bid, d) (edges_added st) \<rparr>)
                else add_edges kexts bid k deps st
            | _ \<Rightarrow> add_edges kexts bid k deps st))"

text \<open>Lines 143-162: the outer loop over \<^verbatim>\<open>kexts.items()\<close>.\<close>

fun edges_loop ::
  "(string \<times> kext) list \<Rightarrow> (string \<times> kext) list \<Rightarrow> graph_state \<Rightarrow> error + graph_state"
where
  "edges_loop kexts [] st = Inr st"
| "edges_loop kexts ((bid, kext_data) # rest) st =
     (case add_edges kexts bid Depends (dependencies kext_data) st of
        Inl e \<Rightarrow> Inl e
      | Inr st1 \<Rightarrow>
          (case add_edges kexts bid UsesLibrary (libraries kext_data) st1 of
             Inl e \<Rightarrow> Inl e
           | Inr st2 \<Rightarrow> edges_loop kexts rest st2))"

text \<open>The edges of the graph built from \<open>kexts\<close>, in the order the code adds them.\<close>

definition graph_edges :: "(string \<times> kext) list \<Rightarrow> error + edge list" where
  "graph_edges kexts =
     (case edges_loop kexts kexts \<lparr> edges = [], edges_added = {} \<rparr> of
        Inl e \<Rightarrow> Inl e
      | Inr st \<Rightarrow> Inr (edges st))"

text \<open>
  The element tree \<^verbatim>\<open>create_graphml\<close> returns, without the fixed header: a node element
  per entry of \<open>kexts\<close> (its id, and the name and version its label is formatted from),
  and an edge element per edge (source, target, label).
\<close>

record graphml =
  node_elements :: "(string \<times> string \<times> pv) list"
  edge_elements :: "(string \<times> string \<times> string) list"

definition create_graphml :: "(string \<times> kext) list \<Rightarrow> error + graphml" where
  "create_graphml kexts =
     (case graph_edges kexts of
        Inl e \<Rightarrow> Inl e
      | Inr es \<Rightarrow>
          Inr \<lparr> node_elements =
                  map (\<lambda>(bid, kext_data).
                         (replace_dots bid, kext_name kext_data, version kext_data)) kexts,
                edge_elements =
                  map (\<lambda>(s, t, k). (replace_dots s, replace_dots t, edge_label k)) es \<rparr>)"

section \<open>The category of a bundle\<close>

text \<open>
  The chain of conditions of \<^verbatim>\<open>generate_statistics\<close> (analyze\_kexts.py, lines 225-240)
  and of \<^verbatim>\<open>analyze_kexts\<close> (compare\_kexts.py, lines 52-67), which are the same text.
  \<open>nm\<close> is the lower-cased name, \<open>bundle_lower\<close> the lower-cased bundle id.
\<close>

datatype category =
  Graphics | Audio | Usb | Bluetooth | AppleSpecific | Intel | Amd | Other

definition categorize :: "string \<Rightarrow> string \<Rightarrow> category" where
  "categorize nm bundle_lower =
     (if contains ''graphics'' nm \<or> contains ''metal'' nm \<or> contains ''gpu'' nm
          \<or> contains ''framebuffer'' nm then Graphics
      else if contains ''audio'' nm \<or> contains ''hda'' bundle_lower then Audio
      else if contains ''usb'' nm \<or> contains ''usb'' bundle_lower then Usb
      else if contains ''bluetooth'' nm \<or> contains ''bt'' bundle_lower then Bluetooth
      else if contains ''apple'' bundle_lower then AppleSpecific
      else if contains ''intel'' nm \<or> contains ''intel'' bundle_lower then Intel
      else if contains ''amd'' nm then Amd
      else Other)"

text \<open>
  The lower-cased name the chain of conditions works on. \<^verbatim>\<open>v.lower()\<close> raises
  AttributeError unless \<open>v\<close> is a string or bytes; on bytes it returns bytes, and the
  first condition, \<^verbatim>\<open>'graphics' in name\<close>, then raises TypeError.
\<close>

fun py_lower :: "pv \<Rightarrow> error + string" where
  "py_lower (PStr s) = Inr (lower s)"
| "py_lower (PBytes b) = Inl TypeError"
| "py_lower v = Inl AttributeError"

text \<open>The keys of the dictionary \<^verbatim>\<open>categories\<close>, in its order.\<close>

definition all_categories :: "category list" where
  "all_categories = [Graphics, Audio, Usb, Bluetooth, AppleSpecific, Intel, Amd, Other]"

text \<open>
  \<^verbatim>\<open>generate_statistics\<close>, lines 221-240: the tally over the records of
  \<^verbatim>\<open>scan_kexts_only\<close>. \<open>kext_category\<close> is the category the body of the loop picks for
  one entry (lines 222-240); the dictionary \<^verbatim>\<open>categories\<close>, whose eight keys are fixed,
  is a function from the category to its count.
\<close>

definition kext_category :: "string \<Rightarrow> kext \<Rightarrow> error + category" where
  "kext_category bid kext =
     (case py_lower (name kext) of
        Inl e \<Rightarrow> Inl e
      | Inr n \<Rightarrow> Inr (categorize n (lower bid)))"

fun statistics_loop ::
  "(string \<times> kext) list \<Rightarrow> (category \<Rightarrow> nat) \<Rightarrow> error + (category \<Rightarrow> nat)" where
  "statistics_loop [] cats = Inr cats"
| "statistics_loop ((bid, kext) # rest) cats =
     (case kext_category bid kext of
        Inl e \<Rightarrow> Inl e
      | Inr c \<Rightarrow> statistics_loop rest (cats(c := cats c + 1)))"

definition generate_statistics :: "(string \<times> kext) list \<Rightarrow> error + (category \<Rightarrow> nat)" where
  "generate_statistics kexts = statistics_loop kexts (\<lambda>c. 0)"

section \<open>compare\_kexts.py: the analysis of a dataset and the comparison of two\<close>

text \<open>
  A dataset is the dictionary \<^verbatim>\<open>json.load\<close> returns, from the bundle id to the record;
  a record is a JSON value, and \<^verbatim>\<open>kext.get\<close> raises AttributeError when it is no
  dictionary.
\<close>

fun kext_get :: "pv \<Rightarrow> string \<Rightarrow> pv \<Rightarrow> error + pv" where
  "kext_get (PDict kv) k dflt = Inr (dict_get kv k dflt)"
| "kext_get v k dflt = Inl AttributeError"

text \<open>
  Lines 48-67: the tally of the categories. \<open>category_of\<close> is the category the body of
  the loop picks for one entry (lines 49-67).
\<close>

definition category_of :: "string \<Rightarrow> pv \<Rightarrow> error + category" where
  "category_of bid kext =
     (case kext_get kext ''name'' (PStr []) of
        Inl e \<Rightarrow> Inl e
      | Inr v \<Rightarrow>
          (case py_lower v of
             Inl e \<Rightarrow> Inl e
           | Inr n \<Rightarrow> Inr (categorize n (lower bid))))"

fun categories_loop ::
  "(string \<times> pv) list \<Rightarrow> (category \<Rightarrow> nat) \<Rightarrow> error + (category \<Rightarrow> nat)" where
  "categories_loop [] cats = Inr cats"
| "categories_loop ((bid, kext) # rest) cats =
     (case category_of bid kext of
        Inl e \<Rightarrow> Inl e
      | Inr c \<Rightarrow> categories_loop rest (cats(c := cats c + 1)))"

text \<open>
  Lines 70-71: \<^verbatim>\<open>sum(len(kext.get(key, [])) for kext in data.values())\<close>.
\<close>

fun sum_len :: "string \<Rightarrow> pv list \<Rightarrow> nat \<Rightarrow> error + nat" where
  "sum_len k [] acc = Inr acc"
| "sum_len k (kext # rest) acc =
     (case kext_get kext k (PList []) of
        Inl e \<Rightarrow> Inl e
      | Inr v \<Rightarrow>
          (case py_len v of
             Inl e \<Rightarrow> Inl e
           | Inr n \<Rightarrow> sum_len k rest (acc + n)))"

text \<open>
  Lines 74-77: the dictionary \<^verbatim>\<open>versions\<close>, from a version to the number of records
  that have it. Its keys are any hashable values, looked up by Python's equality;
  \<^verbatim>\<open>versions[version] = versions.get(version, 0) + 1\<close> keeps the key that is there.
\<close>

fun versions_get :: "(pv \<times> nat) list \<Rightarrow> pv \<Rightarrow> nat \<Rightarrow> nat" where
  "versions_get [] v dflt = dflt"
| "versions_get ((k, c) # rest) v dflt = (if py_eq k v then c else versions_get rest v dflt)"

fun versions_set :: "(pv \<times> nat) list \<Rightarrow> pv \<Rightarrow> nat \<Rightarrow> (pv \<times> nat) list" where
  "versions_set [] v n = [(v, n)]"
| "versions_set ((k, c) # rest) v n =
     (if py_eq k v then (k, n) # rest else (k, c) # versions_set rest v n)"

fun versions_loop :: "pv list \<Rightarrow> (pv \<times> nat) list \<Rightarrow> error + (pv \<times> nat) list" where
  "versions_loop [] versions = Inr versions"
| "versions_loop (kext # rest) versions =
     (case kext_get kext ''version'' (PStr ''N/A'') of
        Inl e \<Rightarrow> Inl e
      | Inr v \<Rightarrow>
          if hashable v
          then versions_loop rest (versions_set versions v (versions_get versions v 0 + 1))
          else Inl TypeError)"

text \<open>
  Line 85: \<^verbatim>\<open>sorted(versions.items(), key=lambda x: x[1], reverse=True)[:5]\<close>. Python's
  sort is stable, also with \<^verbatim>\<open>reverse=True\<close>: entries of equal count keep the order
  they have in \<^verbatim>\<open>versions\<close>.
\<close>

definition top_versions_of :: "(pv \<times> nat) list \<Rightarrow> (pv \<times> nat) list" where
  "top_versions_of versions = take 5 (sort_key (\<lambda>x. - int (snd x)) versions)"

record analysis =
  total_n :: nat
  categories :: "category \<Rightarrow> nat"
  total_libraries :: nat
  total_dependencies :: nat
  unique_versions :: nat
  top_versions :: "(pv \<times> nat) list"

definition analyze_kexts :: "(string \<times> pv) list \<Rightarrow> error + analysis" where
  "analyze_kexts data =
     (case categories_loop data (\<lambda>c. 0) of
        Inl e \<Rightarrow> Inl e
      | Inr cats \<Rightarrow>
          (case sum_len ''libraries'' (map snd data) 0 of
             Inl e \<Rightarrow> Inl e
           | Inr libs \<Rightarrow>
               (case sum_len ''dependencies'' (map snd data) 0 of
                  Inl e \<Rightarrow> Inl e
                | Inr deps \<Rightarrow>
                    (case versions_loop (map snd data) [] of
                       Inl e \<Rightarrow> Inl e
                     | Inr versions \<Rightarrow>
                         Inr \<lparr> total_n = length data,
                               categories = cats,
                               total_libraries = libs,
                               total_dependencies = deps,
                               unique_versions = length versions,
                               top_versions = top_versions_of versions \<rparr>))))"

text \<open>
  \<^verbatim>\<open>compare_kext_datasets\<close>, lines 132-137: the three sets of bundle ids of the two
  datasets.
\<close>

record id_sets =
  common :: "string set"
  only_in_vmapple :: "string set"
  only_in_host :: "string set"

definition bundle_id_comparison :: "(string \<times> pv) list \<Rightarrow> (string \<times> pv) list \<Rightarrow> id_sets" where
  "bundle_id_comparison vmapple host =
     (let vmapple_bundles = set (map fst vmapple);
          host_bundles = set (map fst host)
      in \<lparr> common = vmapple_bundles \<inter> host_bundles,
           only_in_vmapple = vmapple_bundles - host_bundles,
           only_in_host = host_bundles - vmapple_bundles \<rparr>)"

section \<open>Notions the properties are stated with\<close>

text \<open>
  The ordered pair of ids an edge joins, which is what \<^verbatim>\<open>edges_added\<close> holds, and the
  pair without its direction.
\<close>

definition edge_pair :: "edge \<Rightarrow> string \<times> string" where
  "edge_pair e = (fst e, fst (snd e))"

definition unordered_pair :: "edge \<Rightarrow> string set" where
  "unordered_pair e = {fst e, fst (snd e)}"

text \<open>
  What the loops of \<^verbatim>\<open>create_graphml\<close> maintain: \<^verbatim>\<open>edges_added\<close> is the set of the pairs
  of the edges added so far, no pair twice; and every edge joins two ids of \<open>K\<close>.
\<close>

definition pairs_tracked :: "graph_state \<Rightarrow> bool" where
  "pairs_tracked st \<longleftrightarrow>
     edges_added st = set (map edge_pair (edges st)) \<and> distinct (map edge_pair (edges st))"

definition ends_in :: "string set \<Rightarrow> graph_state \<Rightarrow> bool" where
  "ends_in K st \<longleftrightarrow> (\<forall>e \<in> set (edges st). fst e \<in> K \<and> fst (snd e) \<in> K)"

text \<open>
  The categorizer as the specification describes it (section 4.3): an ordered list of
  rules, each a condition on the lower-cased name and bundle id with its category; the
  first rule whose condition holds gives the category, and \<open>Other\<close> is left when
  none does.
\<close>

type_synonym rule = "(string \<Rightarrow> string \<Rightarrow> bool) \<times> category"

definition has_any :: "string list \<Rightarrow> string \<Rightarrow> bool" where
  "has_any kws s = list_ex (\<lambda>kw. contains kw s) kws"

definition rules :: "rule list" where
  "rules =
     [(\<lambda>n b. has_any [''graphics'', ''metal'', ''gpu'', ''framebuffer''] n, Graphics),
      (\<lambda>n b. contains ''audio'' n \<or> contains ''hda'' b, Audio),
      (\<lambda>n b. contains ''usb'' n \<or> contains ''usb'' b, Usb),
      (\<lambda>n b. contains ''bluetooth'' n \<or> contains ''bt'' b, Bluetooth),
      (\<lambda>n b. contains ''apple'' b, AppleSpecific),
      (\<lambda>n b. contains ''intel'' n \<or> contains ''intel'' b, Intel),
      (\<lambda>n b. contains ''amd'' n, Amd)]"

fun first_match :: "rule list \<Rightarrow> string \<Rightarrow> string \<Rightarrow> category" where
  "first_match [] n b = Other"
| "first_match ((p, c) # rs) n b = (if p n b then c else first_match rs n b)"

definition spec_category :: "string \<Rightarrow> string \<Rightarrow> category" where
  "spec_category nm bid = first_match rules (lower nm) (lower bid)"

text \<open>
  The coercion of the requirement field and of the library field as the specification
  words it: \<open>field\<close> is the entry of the descriptor mapping, if there is one. A mapping
  gives its keys in the order met, a sequence gives itself, anything else and no entry
  give the empty sequence.
\<close>

definition coerced :: "pv option \<Rightarrow> pv list" where
  "coerced field =
     (case field of
        Some (PDict kvs) \<Rightarrow> map (\<lambda>kv. PStr (fst kv)) kvs
      | Some (PList xs) \<Rightarrow> xs
      | _ \<Rightarrow> [])"

text \<open>
  A record of a dataset on which \<^verbatim>\<open>analyze_kexts\<close> raises nothing: a dictionary whose
  name, if it has one, is a string, whose \<^verbatim>\<open>libraries\<close> and \<^verbatim>\<open>dependencies\<close>, if it has
  them, have a length, and whose version can be hashed. The records the normalizer
  writes are of this kind.
\<close>

fun is_str :: "pv \<Rightarrow> bool" where
  "is_str (PStr s) = True"
| "is_str v = False"

definition has_len :: "pv \<Rightarrow> bool" where
  "has_len v = (case py_len v of Inl e \<Rightarrow> False | Inr n \<Rightarrow> True)"

fun record_ok :: "pv \<Rightarrow> bool" where
  "record_ok (PDict kv) =
     (is_str (dict_get kv ''name'' (PStr []))
      \<and> has_len (dict_get kv ''libraries'' (PList []))
      \<and> has_len (dict_get kv ''dependencies'' (PList []))
      \<and> hashable (dict_get kv ''version'' (PStr ''N/A'')))"
| "record_ok v = False"

text \<open>
  The notions of the version histogram. \<open>version_of\<close> is the version field of a
  record, with the placeholder of line 76 when the record has none; \<open>versions_of\<close>
  lists the versions of a dataset in the order of its records. \<open>occurrences\<close> counts
  the records of a version, and \<open>first_index\<close> is the position at which a version is
  first met. An entry ranks before another when its count is higher, or the counts are
  equal and its version was met first. \<open>histogram_of\<close> is what the dictionary
  \<^verbatim>\<open>versions\<close> is to the versions read so far: every key with its count, a key for
  every version, in the order the versions were first met.
\<close>

definition version_of :: "pv \<Rightarrow> pv" where
  "version_of kext = (case kext of PDict kv \<Rightarrow> dict_get kv ''version'' (PStr ''N/A'') | _ \<Rightarrow> PStr ''N/A'')"

definition versions_of :: "(string \<times> pv) list \<Rightarrow> pv list" where
  "versions_of data = map (\<lambda>entry. version_of (snd entry)) data"

definition occurrences :: "pv \<Rightarrow> pv list \<Rightarrow> nat" where
  "occurrences v vs = length (filter (py_eq v) vs)"

definition first_index :: "pv \<Rightarrow> pv list \<Rightarrow> nat" where
  "first_index v vs = length (takeWhile (\<lambda>w. \<not> py_eq w v) vs)"

definition ranks_before :: "pv list \<Rightarrow> pv \<times> nat \<Rightarrow> pv \<times> nat \<Rightarrow> bool" where
  "ranks_before vs x y \<longleftrightarrow>
     snd y < snd x \<or> (snd x = snd y \<and> first_index (fst x) vs < first_index (fst y) vs)"

definition histogram_of :: "pv list \<Rightarrow> (pv \<times> nat) list \<Rightarrow> bool" where
  "histogram_of vs h \<longleftrightarrow>
     (\<forall>x \<in> set h. fst x \<in> set vs \<and> snd x = occurrences (fst x) vs)
     \<and> (\<forall>v \<in> set vs. \<exists>x \<in> set h. py_eq (fst x) v)
     \<and> sorted_wrt (\<lambda>a b. first_index a vs < first_index b vs) (map fst h)"

section \<open>The dependency graph\<close>

lemmas scan_eval =
  scan_kexts_only_def parse_plist_file_def parse_body_def dict_get_def
  iokit_classes_of_def provides_of_def

lemma add_edges_tracked:
  "add_edges kexts bid k deps st = Inr st' \<Longrightarrow> pairs_tracked st \<Longrightarrow> pairs_tracked st'"
proof (induction deps arbitrary: st)
  case Nil
  then show ?case by simp
next
  case (Cons dep deps)
  show ?case
  proof (cases dep)
    case (PStr d)
    show ?thesis
    proof (cases "d \<in> fst ` set kexts \<and> (bid, d) \<notin> edges_added st")
      case True
      let ?st = "st\<lparr> edges := edges st @ [(bid, d, k)],
                     edges_added := insert (bid, d) (edges_added st) \<rparr>"
      from Cons.prems(1) PStr True have run: "add_edges kexts bid k deps ?st = Inr st'"
        by simp
      from Cons.prems(2) True have "pairs_tracked ?st"
        by (auto simp: pairs_tracked_def edge_pair_def)
      with run show ?thesis by (rule Cons.IH)
    next
      case False
      with Cons.prems(1) PStr have "add_edges kexts bid k deps st = Inr st'"
        by (simp split: if_splits)
      then show ?thesis using Cons.prems(2) by (rule Cons.IH)
    qed
  qed (use Cons in \<open>auto split: if_splits\<close>)
qed

lemma add_edges_ends:
  "add_edges kexts bid k deps st = Inr st' \<Longrightarrow> bid \<in> fst ` set kexts \<Longrightarrow>
   ends_in (fst ` set kexts) st \<Longrightarrow> ends_in (fst ` set kexts) st'"
proof (induction deps arbitrary: st)
  case Nil
  then show ?case by simp
next
  case (Cons dep deps)
  show ?case
  proof (cases dep)
    case (PStr d)
    show ?thesis
    proof (cases "d \<in> fst ` set kexts \<and> (bid, d) \<notin> edges_added st")
      case True
      let ?st = "st\<lparr> edges := edges st @ [(bid, d, k)],
                     edges_added := insert (bid, d) (edges_added st) \<rparr>"
      from Cons.prems(1) PStr True have run: "add_edges kexts bid k deps ?st = Inr st'"
        by simp
      from Cons.prems(2,3) True have "ends_in (fst ` set kexts) ?st"
        by (auto simp: ends_in_def)
      with run Cons.prems(2) show ?thesis by (rule Cons.IH)
    next
      case False
      with Cons.prems(1) PStr have "add_edges kexts bid k deps st = Inr st'"
        by (simp split: if_splits)
      then show ?thesis using Cons.prems(2,3) by (rule Cons.IH)
    qed
  qed (use Cons in \<open>auto split: if_splits\<close>)
qed

lemma add_edges_returns:
  "list_all hashable deps \<Longrightarrow> \<exists>st'. add_edges kexts bid k deps st = Inr st'"
proof (induction deps arbitrary: st)
  case Nil
  then show ?case by simp
next
  case (Cons dep deps)
  then show ?case by (cases dep) auto
qed

lemma edges_loop_tracked:
  "edges_loop kexts rest st = Inr st' \<Longrightarrow> pairs_tracked st \<Longrightarrow> pairs_tracked st'"
proof (induction rest arbitrary: st)
  case Nil
  then show ?case by simp
next
  case (Cons entry rest)
  obtain bid kext_data where entry: "entry = (bid, kext_data)" by (cases entry)
  from Cons.prems(1) entry obtain st1 st2 where
    s1: "add_edges kexts bid Depends (dependencies kext_data) st = Inr st1" and
    s2: "add_edges kexts bid UsesLibrary (libraries kext_data) st1 = Inr st2" and
    s3: "edges_loop kexts rest st2 = Inr st'"
    by (auto split: sum.splits)
  from s1 Cons.prems(2) have "pairs_tracked st1" by (rule add_edges_tracked)
  with s2 have "pairs_tracked st2" by (rule add_edges_tracked)
  with s3 show ?case by (rule Cons.IH)
qed

lemma edges_loop_ends:
  "edges_loop kexts rest st = Inr st' \<Longrightarrow> set rest \<subseteq> set kexts \<Longrightarrow>
   ends_in (fst ` set kexts) st \<Longrightarrow> ends_in (fst ` set kexts) st'"
proof (induction rest arbitrary: st)
  case Nil
  then show ?case by simp
next
  case (Cons entry rest)
  obtain bid kext_data where entry: "entry = (bid, kext_data)" by (cases entry)
  from Cons.prems(1) entry obtain st1 st2 where
    s1: "add_edges kexts bid Depends (dependencies kext_data) st = Inr st1" and
    s2: "add_edges kexts bid UsesLibrary (libraries kext_data) st1 = Inr st2" and
    s3: "edges_loop kexts rest st2 = Inr st'"
    by (auto split: sum.splits)
  from Cons.prems(2) entry have bid: "bid \<in> fst ` set kexts" by force
  from s1 bid Cons.prems(3) have "ends_in (fst ` set kexts) st1" by (rule add_edges_ends)
  with s2 bid have "ends_in (fst ` set kexts) st2" by (rule add_edges_ends)
  moreover from Cons.prems(2) have "set rest \<subseteq> set kexts" by simp
  ultimately show ?case using s3 Cons.IH by blast
qed

lemma edges_loop_returns:
  "\<forall>r \<in> snd ` set rest. list_all hashable (dependencies r) \<and> list_all hashable (libraries r) \<Longrightarrow>
   \<exists>st'. edges_loop kexts rest st = Inr st'"
proof (induction rest arbitrary: st)
  case Nil
  then show ?case by simp
next
  case (Cons entry rest)
  obtain bid kext_data where entry: "entry = (bid, kext_data)" by (cases entry)
  from Cons.prems entry have h: "list_all hashable (dependencies kext_data)"
    "list_all hashable (libraries kext_data)" by auto
  from h(1) obtain st1 where
    s1: "add_edges kexts bid Depends (dependencies kext_data) st = Inr st1"
    using add_edges_returns by blast
  from h(2) obtain st2 where
    s2: "add_edges kexts bid UsesLibrary (libraries kext_data) st1 = Inr st2"
    using add_edges_returns by blast
  from Cons.prems
  have "\<forall>r \<in> snd ` set rest. list_all hashable (dependencies r) \<and> list_all hashable (libraries r)"
    by simp
  then obtain st' where "edges_loop kexts rest st2 = Inr st'" using Cons.IH by blast
  with s1 s2 entry show ?case by simp
qed

lemma graph_edges_state:
  "graph_edges kexts = Inr es \<Longrightarrow>
   \<exists>st. edges_loop kexts kexts \<lparr> edges = [], edges_added = {} \<rparr> = Inr st \<and> es = edges st"
  by (auto simp: graph_edges_def split: sum.splits)

text \<open>
  C1, as the code has it. In every graph that is built, at most one edge is kept for
  an ordered pair (source id, target id), whatever the kinds of reference between the
  two: once an edge from the source to the target is there, dependency or library, no
  other edge from that source to that target is added. (An edge in the other
  direction is another pair.)
\<close>

theorem one_edge_per_ordered_pair:
  "graph_edges kexts = Inr es \<Longrightarrow> distinct (map edge_pair es)"
proof -
  assume "graph_edges kexts = Inr es"
  then obtain st where st: "edges_loop kexts kexts \<lparr> edges = [], edges_added = {} \<rparr> = Inr st"
    and es: "es = edges st"
    using graph_edges_state by blast
  have "pairs_tracked \<lparr> edges = [], edges_added = {} \<rparr>" by (simp add: pairs_tracked_def)
  with st have "pairs_tracked st" by (rule edges_loop_tracked)
  with es show ?thesis by (simp add: pairs_tracked_def)
qed

text \<open>
  The bundle com.x.a names com.x.b as a requirement and as a library; only the
  dependency edge is kept.
\<close>

theorem one_edge_per_ordered_pair_witness:
  "graph_edges (scan_kexts_only
      [(''a/Info.plist'', Inr (PDict [(''CFBundleIdentifier'', PStr ''com.x.a''),
                                      (''OSBundleRequirements'', PDict [(''com.x.b'', PStr ''1.0'')]),
                                      (''OSBundleLibraries'', PDict [(''com.x.b'', PStr ''1.0'')])])),
       (''b/Info.plist'', Inr (PDict [(''CFBundleIdentifier'', PStr ''com.x.b'')]))])
     = Inr [(''com.x.a'', ''com.x.b'', Depends)]
   \<and> distinct (map edge_pair [(''com.x.a'', ''com.x.b'', Depends)])"
proof -
  let ?kexts = "scan_kexts_only
      [(''a/Info.plist'', Inr (PDict [(''CFBundleIdentifier'', PStr ''com.x.a''),
                                      (''OSBundleRequirements'', PDict [(''com.x.b'', PStr ''1.0'')]),
                                      (''OSBundleLibraries'', PDict [(''com.x.b'', PStr ''1.0'')])])),
       (''b/Info.plist'', Inr (PDict [(''CFBundleIdentifier'', PStr ''com.x.b'')]))]"
  have run: "graph_edges ?kexts = Inr [(''com.x.a'', ''com.x.b'', Depends)]"
    by (simp add: scan_eval graph_edges_def)
  from one_edge_per_ordered_pair [OF run]
  have "distinct (map edge_pair [(''com.x.a'', ''com.x.b'', Depends)])" .
  with run show ?thesis by (rule conjI)
qed

text \<open>
  C1 as the specification words it, with the pair unordered, fails: com.x.a requires
  com.x.b, and com.x.b names com.x.a as a library. Both edges are in the graph, and
  they join the same two ids.
\<close>

theorem unordered_pair_counterexample:
  "graph_edges (scan_kexts_only
      [(''a/Info.plist'', Inr (PDict [(''CFBundleIdentifier'', PStr ''com.x.a''),
                                      (''OSBundleRequirements'', PList [PStr ''com.x.b''])])),
       (''b/Info.plist'', Inr (PDict [(''CFBundleIdentifier'', PStr ''com.x.b''),
                                      (''OSBundleLibraries'', PList [PStr ''com.x.a''])]))])
     = Inr [(''com.x.a'', ''com.x.b'', Depends), (''com.x.b'', ''com.x.a'', UsesLibrary)]
   \<and> unordered_pair (''com.x.a'', ''com.x.b'', Depends)
       = unordered_pair (''com.x.b'', ''com.x.a'', UsesLibrary)"
  by (simp add: scan_eval graph_edges_def unordered_pair_def insert_commute)

text \<open>
  C2. Every edge of a built graph joins two keys of \<open>kexts\<close>, so an entry of
  \<^verbatim>\<open>dependencies\<close> or \<^verbatim>\<open>libraries\<close> that is no key gives no edge; the same holds of the
  elements written (the ends of an edge element are ids of node elements). And a
  reference to an absent id is no error: the graph is built whenever the entries can
  be hashed, which strings can.
\<close>

theorem edges_join_nodes:
  "(\<forall>es s t k. graph_edges kexts = Inr es \<longrightarrow> (s, t, k) \<in> set es \<longrightarrow>
        s \<in> fst ` set kexts \<and> t \<in> fst ` set kexts)
   \<and> (\<forall>g s t l. create_graphml kexts = Inr g \<longrightarrow> (s, t, l) \<in> set (edge_elements g) \<longrightarrow>
        s \<in> fst ` set (node_elements g) \<and> t \<in> fst ` set (node_elements g))
   \<and> ((\<forall>r \<in> snd ` set kexts.
          list_all hashable (dependencies r) \<and> list_all hashable (libraries r))
        \<longrightarrow> (\<exists>es. graph_edges kexts = Inr es))"
proof -
  have ends: "s \<in> fst ` set kexts \<and> t \<in> fst ` set kexts"
    if run: "graph_edges kexts = Inr es" and e: "(s, t, k) \<in> set es" for es s t k
  proof -
    from run obtain st where
      st: "edges_loop kexts kexts \<lparr> edges = [], edges_added = {} \<rparr> = Inr st" and
      es: "es = edges st"
      using graph_edges_state by blast
    have "ends_in (fst ` set kexts) \<lparr> edges = [], edges_added = {} \<rparr>"
      by (simp add: ends_in_def)
    with st have "ends_in (fst ` set kexts) st" using edges_loop_ends by blast
    with es e
    have "fst (s, t, k) \<in> fst ` set kexts \<and> fst (snd (s, t, k)) \<in> fst ` set kexts"
      unfolding ends_in_def by blast
    then show ?thesis by simp
  qed
  have elems: "s \<in> fst ` set (node_elements g) \<and> t \<in> fst ` set (node_elements g)"
    if run: "create_graphml kexts = Inr g" and e: "(s, t, l) \<in> set (edge_elements g)"
    for g s t l
  proof -
    from run obtain es where es: "graph_edges kexts = Inr es" and
      nodes: "fst ` set (node_elements g) = replace_dots ` fst ` set kexts" and
      elts: "set (edge_elements g)
               = (\<lambda>(s, t, k). (replace_dots s, replace_dots t, edge_label k)) ` set es"
      by (force simp: create_graphml_def image_image split: sum.splits)
    from e elts obtain s' t' k where e': "(s', t', k) \<in> set es" and
      st: "s = replace_dots s'" "t = replace_dots t'"
      by auto
    from ends [OF es e'] have "s' \<in> fst ` set kexts" "t' \<in> fst ` set kexts" by simp_all
    with st nodes show ?thesis by blast
  qed
  have returns: "\<exists>es. graph_edges kexts = Inr es"
    if "\<forall>r \<in> snd ` set kexts.
          list_all hashable (dependencies r) \<and> list_all hashable (libraries r)"
  proof -
    from that obtain st where
      "edges_loop kexts kexts \<lparr> edges = [], edges_added = {} \<rparr> = Inr st"
      using edges_loop_returns by blast
    then show ?thesis by (simp add: graph_edges_def)
  qed
  from ends elems returns show ?thesis by blast
qed

text \<open>
  com.x.b requires com.x.a and com.x.missing, which is not in the dataset: the graph
  is built, with the one edge to com.x.a.
\<close>

theorem edges_join_nodes_witness:
  "graph_edges (scan_kexts_only
      [(''a/Info.plist'', Inr (PDict [(''CFBundleIdentifier'', PStr ''com.x.a'')])),
       (''b/Info.plist'', Inr (PDict [(''CFBundleIdentifier'', PStr ''com.x.b''),
                                      (''OSBundleRequirements'',
                                         PList [PStr ''com.x.a'', PStr ''com.x.missing''])]))])
     = Inr [(''com.x.b'', ''com.x.a'', Depends)]
   \<and> ''com.x.b'' \<in> fst ` set (scan_kexts_only
      [(''a/Info.plist'', Inr (PDict [(''CFBundleIdentifier'', PStr ''com.x.a'')])),
       (''b/Info.plist'', Inr (PDict [(''CFBundleIdentifier'', PStr ''com.x.b''),
                                      (''OSBundleRequirements'',
                                         PList [PStr ''com.x.a'', PStr ''com.x.missing''])]))])
   \<and> ''com.x.a'' \<in> fst ` set (scan_kexts_only
      [(''a/Info.plist'', Inr (PDict [(''CFBundleIdentifier'', PStr ''com.x.a'')])),
       (''b/Info.plist'', Inr (PDict [(''CFBundleIdentifier'', PStr ''com.x.b''),
                                      (''OSBundleRequirements'',
                                         PList [PStr ''com.x.a'', PStr ''com.x.missing''])]))])"
proof -
  let ?kexts = "scan_kexts_only
      [(''a/Info.plist'', Inr (PDict [(''CFBundleIdentifier'', PStr ''com.x.a'')])),
       (''b/Info.plist'', Inr (PDict [(''CFBundleIdentifier'', PStr ''com.x.b''),
                                      (''OSBundleRequirements'',
                                         PList [PStr ''com.x.a'', PStr ''com.x.missing''])]))]"
  have run: "graph_edges ?kexts = Inr [(''com.x.b'', ''com.x.a'', Depends)]"
    by (simp add: scan_eval graph_edges_def)
  have mem: "(''com.x.b'', ''com.x.a'', Depends) \<in> set [(''com.x.b'', ''com.x.a'', Depends)]"
    by simp
  from edges_join_nodes [of ?kexts] run mem
  have "''com.x.b'' \<in> fst ` set ?kexts \<and> ''com.x.a'' \<in> fst ` set ?kexts"
    by blast
  with run show ?thesis by (rule conjI)
qed

section \<open>The comparison of two datasets\<close>

text \<open>
  C4. For any two datasets, empty ones included, the three sets of bundle ids that
  the comparison computes cover the ids of both datasets, and no two of the three
  sets share an id.
\<close>

theorem id_sets_partition:
  "common (bundle_id_comparison vmapple host)
     \<union> only_in_vmapple (bundle_id_comparison vmapple host)
     \<union> only_in_host (bundle_id_comparison vmapple host)
     = set (map fst vmapple) \<union> set (map fst host)
   \<and> common (bundle_id_comparison vmapple host)
       \<inter> only_in_vmapple (bundle_id_comparison vmapple host) = {}
   \<and> common (bundle_id_comparison vmapple host)
       \<inter> only_in_host (bundle_id_comparison vmapple host) = {}
   \<and> only_in_vmapple (bundle_id_comparison vmapple host)
       \<inter> only_in_host (bundle_id_comparison vmapple host) = {}"
  unfolding bundle_id_comparison_def Let_def by (simp; blast)

section \<open>The category of a record\<close>

lemma starts_with_iff: "starts_with s p \<longleftrightarrow> (\<exists>q. s = p @ q)"
  by (induction s p rule: starts_with.induct) auto

lemma contains_iff: "contains sub s \<longleftrightarrow> (\<exists>p q. s = p @ sub @ q)"
proof (induction s)
  case Nil
  then show ?case by auto
next
  case (Cons c cs)
  show ?case
  proof
    assume "contains sub (c # cs)"
    then consider "starts_with (c # cs) sub" | "contains sub cs" by auto
    then show "\<exists>p q. c # cs = p @ sub @ q"
    proof cases
      case 1
      then obtain q where "c # cs = sub @ q" by (auto simp: starts_with_iff)
      then have "c # cs = [] @ sub @ q" by simp
      then show ?thesis by blast
    next
      case 2
      then obtain p q where "cs = p @ sub @ q" using Cons.IH by auto
      then have "c # cs = (c # p) @ sub @ q" by simp
      then show ?thesis by blast
    qed
  next
    assume "\<exists>p q. c # cs = p @ sub @ q"
    then obtain p q where pq: "c # cs = p @ sub @ q" by blast
    show "contains sub (c # cs)"
    proof (cases p)
      case Nil
      with pq have "starts_with (c # cs) sub" by (auto simp: starts_with_iff)
      then show ?thesis by simp
    next
      case (Cons a p')
      with pq have "cs = p' @ sub @ q" by simp
      then have "contains sub cs" using Cons.IH by blast
      then show ?thesis by simp
    qed
  qed
qed

lemma contains_lower_iff:
  "contains kw (lower s) \<longleftrightarrow> (\<exists>p m q. s = p @ m @ q \<and> lower m = kw)"
proof
  assume "contains kw (lower s)"
  then obtain p' q' where "map lower_char s = p' @ kw @ q'"
    by (auto simp: contains_iff lower_def)
  then obtain p r where s: "s = p @ r" and r: "map lower_char r = kw @ q'"
    by (metis map_eq_append_conv)
  from r obtain m q where "r = m @ q" "map lower_char m = kw"
    by (metis map_eq_append_conv)
  with s show "\<exists>p m q. s = p @ m @ q \<and> lower m = kw"
    by (auto simp: lower_def)
next
  assume "\<exists>p m q. s = p @ m @ q \<and> lower m = kw"
  then obtain p m q where "s = p @ m @ q" "lower m = kw" by blast
  then have "lower s = lower p @ kw @ lower q" by (auto simp: lower_def)
  then show "contains kw (lower s)" unfolding contains_iff by blast
qed

lemma categorize_first_match: "categorize n b = first_match rules n b"
  by (simp add: categorize_def rules_def has_any_def)

lemma category_listed: "c \<in> set all_categories"
  by (cases c) (simp_all add: all_categories_def)

text \<open>
  C3. The category the code picks for a record whose name is a string is the category
  of the first rule of the ordered list that matches, \<open>Other\<close> when none does: one
  category of the eight, for the loop of \<^verbatim>\<open>analyze_kexts\<close> and for the loop of
  \<^verbatim>\<open>generate_statistics\<close>. The conditions look for the keyword in the lower-cased
  text, that is for a run of the text that is the keyword up to case. The record named
  "Intel USB Controller" with the bundle id com.example.usb is a \<open>Usb\<close> one.
\<close>

theorem category_first_match:
  "(dict_get kv ''name'' (PStr []) = PStr nm \<longrightarrow>
      category_of bid (PDict kv) = Inr (spec_category nm bid))
   \<and> (name k = PStr nm \<longrightarrow> kext_category bid k = Inr (spec_category nm bid))
   \<and> spec_category nm bid \<in> set all_categories
   \<and> distinct all_categories \<and> length all_categories = 8
   \<and> (\<forall>kw s. contains kw (lower s) \<longleftrightarrow> (\<exists>p m q. s = p @ m @ q \<and> lower m = kw))
   \<and> category_of ''com.example.usb'' (PDict [(''name'', PStr ''Intel USB Controller'')]) = Inr Usb"
proof -
  have a: "dict_get kv ''name'' (PStr []) = PStr nm \<longrightarrow>
      category_of bid (PDict kv) = Inr (spec_category nm bid)"
    by (simp add: category_of_def spec_category_def categorize_first_match)
  have b: "name k = PStr nm \<longrightarrow> kext_category bid k = Inr (spec_category nm bid)"
    by (simp add: kext_category_def spec_category_def categorize_first_match)
  have c: "distinct all_categories \<and> length all_categories = 8"
    by (simp add: all_categories_def)
  have d: "\<forall>kw s. contains kw (lower s) \<longleftrightarrow> (\<exists>p m q. s = p @ m @ q \<and> lower m = kw)"
    using contains_lower_iff by blast
  have e: "category_of ''com.example.usb'' (PDict [(''name'', PStr ''Intel USB Controller'')])
          = Inr Usb"
    by (simp add: category_of_def dict_get_def categorize_def lower_def lower_char_def)
  from a b c d e category_listed show ?thesis by blast
qed

text \<open>
  A USB driver of Apple's matches the rule for \<open>Usb\<close> before the rule for
  \<open>AppleSpecific\<close>.
\<close>

theorem category_first_match_witness:
  "category_of ''com.apple.driver.usb.AppleUSBHub'' (PDict [(''name'', PStr ''Apple USB Hub'')])
     = Inr Usb"
proof -
  have n: "dict_get [(''name'', PStr ''Apple USB Hub'')] ''name'' (PStr []) = PStr ''Apple USB Hub''"
    by (simp add: dict_get_def)
  have c: "spec_category ''Apple USB Hub'' ''com.apple.driver.usb.AppleUSBHub'' = Usb"
    by (simp add: spec_category_def rules_def has_any_def lower_def lower_char_def)
  from category_first_match [of "[(''name'', PStr ''Apple USB Hub'')]" "''Apple USB Hub''"
      "''com.apple.driver.usb.AppleUSBHub''"] n
  have "category_of ''com.apple.driver.usb.AppleUSBHub'' (PDict [(''name'', PStr ''Apple USB Hub'')])
          = Inr (spec_category ''Apple USB Hub'' ''com.apple.driver.usb.AppleUSBHub'')"
    by blast
  with c show ?thesis by simp
qed
section \<open>The record normalizer and the scan\<close>

lemma keys_or_list_coerced: "keys_or_list (dict_get d k (PDict [])) = coerced (map_of d k)"
  by (cases "map_of d k"; simp add: dict_get_def coerced_def split: pv.splits)

lemma parse_body_fields:
  "parse_body p (PDict d) = Inr r \<Longrightarrow>
   dependencies r = coerced (map_of d ''OSBundleRequirements'')
   \<and> libraries r = coerced (map_of d ''OSBundleLibraries'')"
  by (auto simp: parse_body_def keys_or_list_coerced split: pv.splits sum.splits)

lemma parse_body_fails_same:
  assumes "\<forall>k. k \<noteq> ''OSBundleRequirements'' \<longrightarrow> k \<noteq> ''OSBundleLibraries'' \<longrightarrow> map_of d k = map_of d' k"
  shows "(\<exists>e. parse_body p (PDict d) = Inl e) \<longleftrightarrow> (\<exists>e. parse_body p' (PDict d') = Inl e)"
proof -
  from assms have "dict_get d ''CFBundleIdentifier'' (PStr []) = dict_get d' ''CFBundleIdentifier'' (PStr [])"
    "dict_get d ''IOKitPersonalities'' (PDict []) = dict_get d' ''IOKitPersonalities'' (PDict [])"
    by (simp_all add: dict_get_def)
  then show ?thesis
    by (simp add: parse_body_def split: pv.splits sum.splits)
qed

text \<open>
  C5. Whenever a descriptor mapping is normalized, \<^verbatim>\<open>dependencies\<close> is the coercion of
  its requirement field and \<^verbatim>\<open>libraries\<close> the coercion of its library field: the
  keys of a mapping in the order met, a sequence as it is, the empty sequence for any
  other shape and for a missing field. The two fields never make the normalization
  fail: two mappings that differ in these two fields only are both normalized or both
  refused.
\<close>

theorem requirement_fields_coerced:
  "(parse_plist_file p (Inr (PDict d)) = Some r \<longrightarrow>
      dependencies r = coerced (map_of d ''OSBundleRequirements'')
      \<and> libraries r = coerced (map_of d ''OSBundleLibraries''))
   \<and> ((\<forall>k. k \<noteq> ''OSBundleRequirements'' \<longrightarrow> k \<noteq> ''OSBundleLibraries'' \<longrightarrow> map_of d k = map_of d' k)
        \<longrightarrow> (parse_plist_file p (Inr (PDict d)) = None \<longleftrightarrow> parse_plist_file p (Inr (PDict d')) = None))"
proof (intro conjI impI)
  assume "parse_plist_file p (Inr (PDict d)) = Some r"
  then have "parse_body p (PDict d) = Inr r"
    by (simp add: parse_plist_file_def split: sum.splits)
  then show "dependencies r = coerced (map_of d ''OSBundleRequirements'')"
    "libraries r = coerced (map_of d ''OSBundleLibraries'')"
    using parse_body_fields by blast+
next
  assume "\<forall>k. k \<noteq> ''OSBundleRequirements'' \<longrightarrow> k \<noteq> ''OSBundleLibraries'' \<longrightarrow> map_of d k = map_of d' k"
  then have "(\<exists>e. parse_body p (PDict d) = Inl e) \<longleftrightarrow> (\<exists>e. parse_body p (PDict d') = Inl e)"
    by (rule parse_body_fails_same)
  moreover have "parse_plist_file p (Inr x) = None \<longleftrightarrow> (\<exists>e. parse_body p x = Inl e)" for x
    by (cases "parse_body p x") (simp_all add: parse_plist_file_def)
  ultimately
  show "parse_plist_file p (Inr (PDict d)) = None \<longleftrightarrow> parse_plist_file p (Inr (PDict d')) = None"
    by simp
qed

text \<open>
  A requirement field that is a mapping of two ids, and a library field that is a
  sequence of one.
\<close>

theorem requirement_fields_coerced_witness:
  "map_option dependencies (parse_plist_file ''a/Info.plist''
      (Inr (PDict [(''CFBundleIdentifier'', PStr ''com.x.a''),
                   (''OSBundleRequirements'',
                      PDict [(''com.x.b'', PStr ''1.0''), (''com.x.c'', PStr ''2.0'')]),
                   (''OSBundleLibraries'', PList [PStr ''com.x.d''])])))
     = Some [PStr ''com.x.b'', PStr ''com.x.c'']
   \<and> map_option libraries (parse_plist_file ''a/Info.plist''
      (Inr (PDict [(''CFBundleIdentifier'', PStr ''com.x.a''),
                   (''OSBundleRequirements'',
                      PDict [(''com.x.b'', PStr ''1.0''), (''com.x.c'', PStr ''2.0'')]),
                   (''OSBundleLibraries'', PList [PStr ''com.x.d''])])))
     = Some [PStr ''com.x.d'']"
proof -
  let ?d = "[(''CFBundleIdentifier'', PStr ''com.x.a''),
             (''OSBundleRequirements'',
                PDict [(''com.x.b'', PStr ''1.0''), (''com.x.c'', PStr ''2.0'')]),
             (''OSBundleLibraries'', PList [PStr ''com.x.d''])]"
  obtain r where r: "parse_plist_file ''a/Info.plist'' (Inr (PDict ?d)) = Some r"
    by (simp add: scan_eval)
  from requirement_fields_coerced [of "''a/Info.plist''" ?d r] r
  have "dependencies r = coerced (map_of ?d ''OSBundleRequirements'')"
    and "libraries r = coerced (map_of ?d ''OSBundleLibraries'')"
    by blast+
  then have "dependencies r = [PStr ''com.x.b'', PStr ''com.x.c'']"
    and "libraries r = [PStr ''com.x.d'']"
    by (simp_all add: coerced_def)
  with r show ?thesis by simp
qed

lemma scan_loop_append: "scan_loop (xs @ ys) kexts = scan_loop ys (scan_loop xs kexts)"
  by (induction xs kexts rule: scan_loop.induct) (auto split: option.splits)

lemma update_entry: "x \<in> set (AList.update k v al) \<Longrightarrow> x = (k, v) \<or> x \<in> set al"
proof (induction al)
  case Nil
  then show ?case by simp
next
  case (Cons a al)
  then show ?case by (cases "fst a = k") auto
qed

lemma scan_loop_key_kept:
  "b \<in> fst ` set kexts \<Longrightarrow> b \<in> fst ` set (scan_loop fs kexts)"
proof (induction fs kexts rule: scan_loop.induct)
  case (1 kexts)
  then show ?case by simp
next
  case (2 plist_path loaded rest kexts)
  note IH = "2.IH" and prems = "2.prems"
  show ?case
  proof (cases "parse_plist_file plist_path loaded")
    case None
    with IH(1) prems show ?thesis by simp
  next
    case (Some data)
    show ?thesis
    proof (cases "bundle_id data \<noteq> []")
      case True
      from prems have "b \<in> fst ` set (AList.update (bundle_id data) data kexts)"
        by (simp add: dom_update)
      from IH(2) [OF Some True this] Some True show ?thesis by simp
    next
      case False
      from IH(3) [OF Some] False prems Some show ?thesis by simp
    qed
  qed
qed

lemma scan_loop_key_added:
  "(p, l) \<in> set fs \<Longrightarrow> parse_plist_file p l = Some r \<Longrightarrow> bundle_id r \<noteq> [] \<Longrightarrow>
   bundle_id r \<in> fst ` set (scan_loop fs kexts)"
proof (induction fs arbitrary: kexts)
  case Nil
  then show ?case by simp
next
  case (Cons f fs)
  show ?case
  proof (cases "f = (p, l)")
    case True
    have "bundle_id r \<in> fst ` set (AList.update (bundle_id r) r kexts)"
      by (simp add: dom_update)
    then have "bundle_id r \<in> fst ` set (scan_loop fs (AList.update (bundle_id r) r kexts))"
      by (rule scan_loop_key_kept)
    with True Cons.prems show ?thesis by simp
  next
    case False
    with Cons.prems have "(p, l) \<in> set fs" by simp
    then have step: "bundle_id r \<in> fst ` set (scan_loop fs k)" for k
      using Cons.IH Cons.prems(2,3) by blast
    obtain p' l' where f: "f = (p', l')" by (cases f)
    show ?thesis
      unfolding f by (simp add: step split: option.splits)
  qed
qed

lemma scan_loop_entries:
  "(b, r) \<in> set (scan_loop fs kexts) \<Longrightarrow>
   (b, r) \<in> set kexts \<or>
   (\<exists>p l. (p, l) \<in> set fs \<and> parse_plist_file p l = Some r \<and> bundle_id r = b \<and> b \<noteq> [])"
proof (induction fs arbitrary: kexts)
  case Nil
  then show ?case by simp
next
  case (Cons f fs)
  obtain p l where f: "f = (p, l)" by (cases f)
  let ?later = "\<exists>p l. (p, l) \<in> set fs \<and> parse_plist_file p l = Some r \<and> bundle_id r = b \<and> b \<noteq> []"
  have skip: ?case if "(b, r) \<in> set (scan_loop fs kexts)"
  proof -
    from Cons.IH [OF that] consider "(b, r) \<in> set kexts" | ?later by blast
    then show ?thesis
    proof cases
      case 1
      then show ?thesis by (rule disjI1)
    next
      case 2
      then obtain p' l' where "(p', l') \<in> set (f # fs)" "parse_plist_file p' l' = Some r"
        "bundle_id r = b" "b \<noteq> []" by auto
      then show ?thesis by blast
    qed
  qed
  show ?case
  proof (cases "parse_plist_file p l")
    case None
    with Cons.prems f have "(b, r) \<in> set (scan_loop fs kexts)" by simp
    then show ?thesis by (rule skip)
  next
    case (Some data)
    show ?thesis
    proof (cases "bundle_id data = []")
      case True
      with Some Cons.prems f have "(b, r) \<in> set (scan_loop fs kexts)" by simp
      then show ?thesis by (rule skip)
    next
      case False
      with Some Cons.prems f
      have "(b, r) \<in> set (scan_loop fs (AList.update (bundle_id data) data kexts))" by simp
      from Cons.IH [OF this]
      consider "(b, r) \<in> set (AList.update (bundle_id data) data kexts)" | ?later by blast
      then show ?thesis
      proof cases
        case 1
        from update_entry [OF 1] show ?thesis
        proof (elim disjE)
          assume "(b, r) = (bundle_id data, data)"
          then have "b = bundle_id data" "r = data" by simp_all
          with Some False f have "(p, l) \<in> set (f # fs)" "parse_plist_file p l = Some r"
            "bundle_id r = b" "b \<noteq> []" by simp_all
          then show ?thesis by (intro disjI2 exI conjI)
        next
          assume "(b, r) \<in> set kexts"
          then show ?thesis by (rule disjI1)
        qed
      next
        case 2
        then obtain p' l' where "(p', l') \<in> set (f # fs)" "parse_plist_file p' l' = Some r"
          "bundle_id r = b" "b \<noteq> []" by auto
        then show ?thesis by blast
      qed
    qed
  qed
qed

text \<open>
  C8. \<^verbatim>\<open>parse_plist_file\<close> catches every failure of one item and returns \<^verbatim>\<open>None\<close>, which
  the scan skips. So the scan of a collection with an item that cannot be normalized
  never fails and is the scan of the collection without that item; every other item
  that is normalized to a record with a bundle id has its id among the keys of the
  result; and every entry of the result is the record of one of the other items,
  under its bundle id.
\<close>

theorem malformed_item_dropped:
  assumes bad: "parse_plist_file p l = None"
  shows "scan_kexts_only (xs @ (p, l) # ys) = scan_kexts_only (xs @ ys)
    \<and> (\<forall>(p', l') \<in> set (xs @ ys). \<forall>r.
          parse_plist_file p' l' = Some r \<longrightarrow> bundle_id r \<noteq> [] \<longrightarrow>
          bundle_id r \<in> fst ` set (scan_kexts_only (xs @ (p, l) # ys)))
    \<and> (\<forall>(b, r) \<in> set (scan_kexts_only (xs @ (p, l) # ys)).
          \<exists>(p', l') \<in> set (xs @ ys). parse_plist_file p' l' = Some r \<and> bundle_id r = b)"
proof -
  have eq: "scan_kexts_only (xs @ (p, l) # ys) = scan_kexts_only (xs @ ys)"
    using bad by (simp add: scan_kexts_only_def scan_loop_append)
  have keys: "bundle_id r \<in> fst ` set (scan_kexts_only (xs @ ys))"
    if "(p', l') \<in> set (xs @ ys)" "parse_plist_file p' l' = Some r" "bundle_id r \<noteq> []"
    for p' l' r
    unfolding scan_kexts_only_def using that by (rule scan_loop_key_added)
  have entries: "\<exists>(p', l') \<in> set (xs @ ys). parse_plist_file p' l' = Some r \<and> bundle_id r = b"
    if "(b, r) \<in> set (scan_kexts_only (xs @ ys))" for b r
  proof -
    from that have "(b, r) \<in> set (scan_loop (xs @ ys) [])" by (simp add: scan_kexts_only_def)
    from scan_loop_entries [OF this] obtain p' l' where
      "(p', l') \<in> set (xs @ ys)" "parse_plist_file p' l' = Some r" "bundle_id r = b"
      by auto
    then show ?thesis by blast
  qed
  show ?thesis
  proof (intro conjI)
    show "scan_kexts_only (xs @ (p, l) # ys) = scan_kexts_only (xs @ ys)" by (rule eq)
    show "\<forall>(p', l') \<in> set (xs @ ys). \<forall>r.
          parse_plist_file p' l' = Some r \<longrightarrow> bundle_id r \<noteq> [] \<longrightarrow>
          bundle_id r \<in> fst ` set (scan_kexts_only (xs @ (p, l) # ys))"
      unfolding eq using keys by fast
    show "\<forall>(b, r) \<in> set (scan_kexts_only (xs @ (p, l) # ys)).
          \<exists>(p', l') \<in> set (xs @ ys). parse_plist_file p' l' = Some r \<and> bundle_id r = b"
      unfolding eq using entries by fast
  qed
qed

text \<open>
  A bundle whose identifier is a number cannot be normalized (it has no \<^verbatim>\<open>split\<close>); the
  bundles before and after it are scanned, and both are in the result.
\<close>

theorem malformed_item_dropped_witness:
  "scan_kexts_only
     [(''a/Info.plist'', Inr (PDict [(''CFBundleIdentifier'', PStr ''com.x.a'')])),
      (''bad/Info.plist'', Inr (PDict [(''CFBundleIdentifier'', PInt 5)])),
      (''b/Info.plist'', Inr (PDict [(''CFBundleIdentifier'', PStr ''com.x.b'')]))]
   = scan_kexts_only
     [(''a/Info.plist'', Inr (PDict [(''CFBundleIdentifier'', PStr ''com.x.a'')])),
      (''b/Info.plist'', Inr (PDict [(''CFBundleIdentifier'', PStr ''com.x.b'')]))]
   \<and> map fst (scan_kexts_only
     [(''a/Info.plist'', Inr (PDict [(''CFBundleIdentifier'', PStr ''com.x.a'')])),
      (''bad/Info.plist'', Inr (PDict [(''CFBundleIdentifier'', PInt 5)])),
      (''b/Info.plist'', Inr (PDict [(''CFBundleIdentifier'', PStr ''com.x.b'')]))])
     = [''com.x.a'', ''com.x.b'']
   \<and> ''com.x.b'' \<in> fst ` set (scan_kexts_only
     [(''a/Info.plist'', Inr (PDict [(''CFBundleIdentifier'', PStr ''com.x.a'')])),
      (''bad/Info.plist'', Inr (PDict [(''CFBundleIdentifier'', PInt 5)])),
      (''b/Info.plist'', Inr (PDict [(''CFBundleIdentifier'', PStr ''com.x.b'')]))])"
proof -
  let ?a = "(''a/Info.plist'', Inr (PDict [(''CFBundleIdentifier'', PStr ''com.x.a'')]))
              :: string \<times> (error + pv)"
  let ?lb = "Inr (PDict [(''CFBundleIdentifier'', PStr ''com.x.b'')]) :: error + pv"
  let ?bad = "Inr (PDict [(''CFBundleIdentifier'', PInt 5)]) :: error + pv"
  let ?scan = "scan_kexts_only ([?a] @ (''bad/Info.plist'', ?bad) # [(''b/Info.plist'', ?lb)])"
  have bad: "parse_plist_file ''bad/Info.plist'' ?bad = None"
    by (simp add: scan_eval)
  have "\<exists>r. parse_plist_file ''b/Info.plist'' ?lb = Some r \<and> bundle_id r = ''com.x.b''"
    by (simp add: scan_eval)
  then obtain r where r: "parse_plist_file ''b/Info.plist'' ?lb = Some r"
    and b: "bundle_id r = ''com.x.b''"
    by (elim exE conjE)
  from b have ne: "bundle_id r \<noteq> []" by simp
  have mem: "(''b/Info.plist'', ?lb) \<in> set ([?a] @ [(''b/Info.plist'', ?lb)])" by simp
  note inst = malformed_item_dropped [OF bad, of "[?a]" "[(''b/Info.plist'', ?lb)]"]
  from inst have eq: "?scan = scan_kexts_only ([?a] @ [(''b/Info.plist'', ?lb)])"
    by (rule conjunct1)
  from inst have "\<forall>(p', l') \<in> set ([?a] @ [(''b/Info.plist'', ?lb)]). \<forall>r.
          parse_plist_file p' l' = Some r \<longrightarrow> bundle_id r \<noteq> [] \<longrightarrow>
          bundle_id r \<in> fst ` set ?scan"
    by (elim conjE)
  from this [THEN bspec, OF mem]
  have "\<forall>r. parse_plist_file ''b/Info.plist'' ?lb = Some r \<longrightarrow> bundle_id r \<noteq> [] \<longrightarrow>
          bundle_id r \<in> fst ` set ?scan"
    by (simp only: prod.case)
  from this [rule_format, OF r ne] have "bundle_id r \<in> fst ` set ?scan" .
  with b have in_scan: "''com.x.b'' \<in> fst ` set ?scan" by (simp only:)
  have keys: "map fst ?scan = [''com.x.a'', ''com.x.b'']"
    by (simp add: scan_eval)
  from eq keys in_scan show ?thesis by simp
qed

lemma scan_loop_distinct:
  "distinct (map fst kexts) \<Longrightarrow> distinct (map fst (scan_loop fs kexts))"
  by (induction fs kexts rule: scan_loop.induct) (auto split: option.splits simp: distinct_update)

lemma scan_loop_other:
  "\<forall>(p, l) \<in> set fs. \<forall>r. parse_plist_file p l = Some r \<longrightarrow> bundle_id r \<noteq> b \<Longrightarrow>
   map_of (scan_loop fs kexts) b = map_of kexts b"
proof (induction fs kexts rule: scan_loop.induct)
  case (1 kexts)
  then show ?case by simp
next
  case (2 plist_path loaded rest kexts)
  then show ?case
    by (auto split: option.splits simp: update_conv')
qed

lemma one_entry:
  "distinct (map fst al) \<Longrightarrow> map_of al b = Some v \<Longrightarrow> filter (\<lambda>kv. fst kv = b) al = [(b, v)]"
proof (induction al)
  case Nil
  then show ?case by simp
next
  case (Cons a al)
  show ?case
  proof (cases "fst a = b")
    case True
    with Cons.prems have "a = (b, v)" by (cases a) auto
    moreover have "filter (\<lambda>kv. fst kv = b) al = []"
    proof -
      from True Cons.prems(1) have "b \<notin> fst ` set al" by simp
      then have "\<forall>kv \<in> set al. fst kv \<noteq> b" by force
      then show ?thesis by (simp add: filter_empty_conv)
    qed
    ultimately show ?thesis by simp
  next
    case False
    with Cons show ?thesis by auto
  qed
qed

text \<open>
  C6. When two records of the collection share a bundle id (which is not empty), and
  no record after the second has that id, the dictionary of nodes has exactly one
  entry for the id, and it holds the second record.
\<close>

theorem later_record_wins:
  assumes "parse_plist_file p1 l1 = Some r1" and "parse_plist_file p2 l2 = Some r2"
    and "bundle_id r1 = bundle_id r2" and "bundle_id r2 \<noteq> []"
    and "\<forall>(p, l) \<in> set zs. \<forall>r. parse_plist_file p l = Some r \<longrightarrow> bundle_id r \<noteq> bundle_id r2"
  shows "filter (\<lambda>kv. fst kv = bundle_id r2)
           (scan_kexts_only (xs @ (p1, l1) # ys @ (p2, l2) # zs)) = [(bundle_id r2, r2)]"
proof -
  let ?b = "bundle_id r2"
  let ?k1 = "scan_loop (xs @ (p1, l1) # ys) []"
  let ?k2 = "AList.update ?b r2 ?k1"
  have split: "scan_kexts_only (xs @ (p1, l1) # ys @ (p2, l2) # zs) = scan_loop zs ?k2"
    using assms(2,4) scan_loop_append [of "xs @ (p1, l1) # ys" "(p2, l2) # zs" "[]"]
    by (simp add: scan_kexts_only_def)
  have "map_of (scan_loop zs ?k2) ?b = map_of ?k2 ?b"
    using assms(5) by (rule scan_loop_other)
  then have look: "map_of (scan_loop zs ?k2) ?b = Some r2" by (simp add: update_conv')
  have "distinct (map fst (scan_loop (xs @ (p1, l1) # ys @ (p2, l2) # zs) []))"
    by (rule scan_loop_distinct) simp
  then have "distinct (map fst (scan_loop zs ?k2))"
    using split by (simp add: scan_kexts_only_def)
  from one_entry [OF this look] split show ?thesis by simp
qed

text \<open>Two bundles with the id com.x.a: the node has the version of the second.\<close>

theorem later_record_wins_witness:
  "map (\<lambda>kv. (fst kv, version (snd kv)))
     (filter (\<lambda>kv. fst kv = ''com.x.a'')
        (scan_kexts_only
           [(''one/Info.plist'', Inr (PDict [(''CFBundleIdentifier'', PStr ''com.x.a''),
                                            (''CFBundleVersion'', PStr ''1.0'')])),
            (''two/Info.plist'', Inr (PDict [(''CFBundleIdentifier'', PStr ''com.x.a''),
                                            (''CFBundleVersion'', PStr ''2.0'')]))]))
   = [(''com.x.a'', PStr ''2.0'')]"
proof -
  let ?l1 = "Inr (PDict [(''CFBundleIdentifier'', PStr ''com.x.a''),
                         (''CFBundleVersion'', PStr ''1.0'')]) :: error + pv"
  let ?l2 = "Inr (PDict [(''CFBundleIdentifier'', PStr ''com.x.a''),
                         (''CFBundleVersion'', PStr ''2.0'')]) :: error + pv"
  obtain r1 where r1: "parse_plist_file ''one/Info.plist'' ?l1 = Some r1"
    and b1: "bundle_id r1 = ''com.x.a''"
    by (simp add: scan_eval)
  obtain r2 where r2: "parse_plist_file ''two/Info.plist'' ?l2 = Some r2"
    and b2: "bundle_id r2 = ''com.x.a''" and v2: "version r2 = PStr ''2.0''"
    by (simp add: scan_eval)
  have none: "\<forall>(p, l) \<in> set []. \<forall>r. parse_plist_file p l = Some r \<longrightarrow> bundle_id r \<noteq> bundle_id r2"
    by simp
  from b1 b2 have same: "bundle_id r1 = bundle_id r2" by simp
  from b2 have ne: "bundle_id r2 \<noteq> []" by simp
  from later_record_wins [OF r1 r2 same ne none, of "[]" "[]"] b2 v2
  show ?thesis by simp
qed

text \<open>
  C10. A personality that is the string "IOClass", beside a well-formed one: the test
  \<^verbatim>\<open>'IOClass' in value\<close> holds of the string, \<^verbatim>\<open>value.get\<close> then raises, and the whole
  record is refused and missing from the scan. With a string in which "IOClass" does
  not occur the entry is skipped and the record is kept.
\<close>

theorem personality_string_drops_record:
  "parse_plist_file ''a/Info.plist''
     (Inr (PDict [(''CFBundleIdentifier'', PStr ''com.x.a''),
                  (''IOKitPersonalities'',
                     PDict [(''Good'', PDict [(''IOClass'', PStr ''IOService'')]),
                            (''Bad'', PStr ''IOClass'')])])) = None
   \<and> scan_kexts_only
       [(''a/Info.plist'',
         Inr (PDict [(''CFBundleIdentifier'', PStr ''com.x.a''),
                     (''IOKitPersonalities'',
                        PDict [(''Good'', PDict [(''IOClass'', PStr ''IOService'')]),
                               (''Bad'', PStr ''IOClass'')])]))] = []
   \<and> map_option iokit_classes (parse_plist_file ''a/Info.plist''
        (Inr (PDict [(''CFBundleIdentifier'', PStr ''com.x.a''),
                     (''IOKitPersonalities'',
                        PDict [(''Good'', PDict [(''IOClass'', PStr ''IOService'')]),
                               (''Bad'', PStr ''AppleDriver'')])])))
       = Some {PStr ''IOService''}"
  by (simp add: scan_eval)

section \<open>The analysis of a dataset\<close>

lemma tally_step:
  "sum_list (map (cats(c := cats c + 1)) all_categories)
     = sum_list (map cats all_categories) + (1 :: nat)"
  by (cases c) (simp_all add: all_categories_def)

lemma categories_loop_sum:
  "categories_loop data cats = Inr cats' \<Longrightarrow>
   sum_list (map cats' all_categories) = sum_list (map cats all_categories) + length data"
proof (induction data arbitrary: cats)
  case Nil
  then show ?case by simp
next
  case (Cons entry data)
  obtain bid kext where entry: "entry = (bid, kext)" by (cases entry)
  from Cons.prems entry obtain c where
    c: "category_of bid kext = Inr c" and
    rest: "categories_loop data (cats(c := cats c + 1)) = Inr cats'"
    by (auto split: sum.splits)
  have "sum_list (map cats' all_categories)
          = sum_list (map (cats(c := cats c + 1)) all_categories) + length data"
    by (rule Cons.IH [OF rest])
  also have "\<dots> = sum_list (map cats all_categories) + 1 + length data"
    by (simp only: tally_step)
  finally show ?case by simp
qed

lemma record_ok_dict: "record_ok kext \<Longrightarrow> \<exists>kv. kext = PDict kv"
  by (cases kext) simp_all

lemma categories_loop_returns:
  "list_all record_ok (map snd data) \<Longrightarrow> \<exists>cats'. categories_loop data cats = Inr cats'"
proof (induction data arbitrary: cats)
  case Nil
  then show ?case by simp
next
  case (Cons entry data)
  obtain bid kext where entry: "entry = (bid, kext)" by (cases entry)
  with Cons.prems have "record_ok kext" by simp
  then obtain kv where kv: "kext = PDict kv" and ok: "record_ok (PDict kv)"
    using record_ok_dict by blast
  from ok obtain n where "dict_get kv ''name'' (PStr []) = PStr n"
    by (cases "dict_get kv ''name'' (PStr [])") simp_all
  then have "category_of bid kext = Inr (categorize (lower n) (lower bid))"
    using kv by (simp add: category_of_def)
  moreover from Cons.prems have "list_all record_ok (map snd data)" by simp
  ultimately show ?case using Cons.IH entry by (simp split: sum.splits)
qed

lemma sum_len_returns:
  "\<forall>kext \<in> set ks. \<exists>kv. kext = PDict kv \<and> has_len (dict_get kv k (PList [])) \<Longrightarrow>
   \<exists>n. sum_len k ks acc = Inr n"
proof (induction ks arbitrary: acc)
  case Nil
  then show ?case by simp
next
  case (Cons kext ks)
  then obtain kv where kv: "kext = PDict kv" and len: "has_len (dict_get kv k (PList []))"
    by auto
  from len obtain n where "py_len (dict_get kv k (PList [])) = Inr n"
    by (auto simp: has_len_def split: sum.splits)
  with kv Cons show ?case by simp
qed

lemma versions_loop_returns:
  "\<forall>kext \<in> set ks. \<exists>kv. kext = PDict kv \<and> hashable (dict_get kv ''version'' (PStr ''N/A'')) \<Longrightarrow>
   \<exists>vs. versions_loop ks acc = Inr vs"
proof (induction ks arbitrary: acc)
  case Nil
  then show ?case by simp
next
  case (Cons kext ks)
  then obtain kv where "kext = PDict kv" "hashable (dict_get kv ''version'' (PStr ''N/A''))"
    by auto
  with Cons show ?case by simp
qed

text \<open>
  C9. The counts of the eight categories that the analysis of a dataset returns add up
  to its total, the number of records of the dataset. The analysis returns for every
  dataset whose records are well formed.
\<close>

theorem category_counts_sum_to_total:
  "(analyze_kexts data = Inr a \<longrightarrow>
      sum_list (map (categories a) all_categories) = total_n a \<and> total_n a = length data)
   \<and> (list_all record_ok (map snd data) \<longrightarrow> (\<exists>a. analyze_kexts data = Inr a))"
proof (intro conjI impI)
  assume run: "analyze_kexts data = Inr a"
  then obtain cats where cats: "categories_loop data (\<lambda>c. 0) = Inr cats"
    and a: "categories a = cats" "total_n a = length data"
    by (auto simp: analyze_kexts_def split: sum.splits)
  from categories_loop_sum [OF cats] a
  show "sum_list (map (categories a) all_categories) = total_n a"
    by (simp add: all_categories_def)
  from a show "total_n a = length data" by simp
next
  assume ok: "list_all record_ok (map snd data)"
  then obtain cats where 1: "categories_loop data (\<lambda>c. 0) = Inr cats"
    using categories_loop_returns by blast
  from ok have all: "\<forall>kext \<in> set (map snd data). \<exists>kv. kext = PDict kv \<and> record_ok (PDict kv)"
    using record_ok_dict by (fastforce simp: list_all_iff)
  then have "\<forall>kext \<in> set (map snd data). \<exists>kv. kext = PDict kv \<and> has_len (dict_get kv ''libraries'' (PList []))"
    by fastforce
  then obtain libs where 2: "sum_len ''libraries'' (map snd data) 0 = Inr libs"
    using sum_len_returns by blast
  from all have "\<forall>kext \<in> set (map snd data). \<exists>kv. kext = PDict kv \<and> has_len (dict_get kv ''dependencies'' (PList []))"
    by fastforce
  then obtain deps where 3: "sum_len ''dependencies'' (map snd data) 0 = Inr deps"
    using sum_len_returns by blast
  from all have "\<forall>kext \<in> set (map snd data). \<exists>kv. kext = PDict kv \<and> hashable (dict_get kv ''version'' (PStr ''N/A''))"
    by fastforce
  then obtain vs where 4: "versions_loop (map snd data) [] = Inr vs"
    using versions_loop_returns by blast
  from 1 2 3 4 show "\<exists>a. analyze_kexts data = Inr a"
    by (simp add: analyze_kexts_def)
qed

text \<open>Three records: one \<open>Graphics\<close>, one \<open>Usb\<close>, one \<open>Other\<close>.\<close>

theorem category_counts_sum_to_total_witness:
  "map_sum id (\<lambda>a. (map (categories a) all_categories, total_n a))
     (analyze_kexts
        [(''com.apple.driver.usb.AppleUSBHub'', PDict [(''name'', PStr ''Apple USB Hub'')]),
         (''com.apple.iokit.IOGraphicsFamily'', PDict [(''name'', PStr ''I/O Kit Graphics Family'')]),
         (''com.x.misc'', PDict [(''version'', PStr ''1.0'')])])
   = Inr ([1, 0, 1, 0, 0, 0, 0, 1], 3)
   \<and> sum_list [1, 0, 1, 0, 0, 0, 0, 1 :: nat] = 3"
proof -
  let ?data = "[(''com.apple.driver.usb.AppleUSBHub'', PDict [(''name'', PStr ''Apple USB Hub'')]),
         (''com.apple.iokit.IOGraphicsFamily'', PDict [(''name'', PStr ''I/O Kit Graphics Family'')]),
         (''com.x.misc'', PDict [(''version'', PStr ''1.0'')])]"
  have c1: "category_of ''com.apple.driver.usb.AppleUSBHub'' (PDict [(''name'', PStr ''Apple USB Hub'')])
              = Inr Usb"
    by (simp add: category_of_def dict_get_def categorize_def lower_def lower_char_def)
  have c2: "category_of ''com.apple.iokit.IOGraphicsFamily''
              (PDict [(''name'', PStr ''I/O Kit Graphics Family'')]) = Inr Graphics"
    by (simp add: category_of_def dict_get_def categorize_def lower_def lower_char_def)
  have c3: "category_of ''com.x.misc'' (PDict [(''version'', PStr ''1.0'')]) = Inr Other"
    by (simp add: category_of_def dict_get_def categorize_def lower_def lower_char_def)
  have "\<exists>a. analyze_kexts ?data = Inr a
          \<and> map (categories a) all_categories = [1, 0, 1, 0, 0, 0, 0, 1] \<and> total_n a = 3"
    by (simp add: analyze_kexts_def c1 c2 c3 dict_get_def all_categories_def)
  then show ?thesis
  proof (elim exE conjE)
    fix a
    assume a: "analyze_kexts ?data = Inr a"
      and c: "map (categories a) all_categories = [1, 0, 1, 0, 0, 0, 0, 1]"
      and t: "total_n a = 3"
    from category_counts_sum_to_total [of ?data a, THEN conjunct1, THEN mp, OF a]
    have "sum_list (map (categories a) all_categories) = total_n a" by (rule conjunct1)
    with c t have "sum_list [1, 0, 1, 0, 0, 0, 0, 1 :: nat] = 3" by simp
    with a c t show ?thesis by simp
  qed
qed
section \<open>The version histogram\<close>

lemma py_eq_refl: "py_eq a a"
  by (simp add: py_eq_def split: option.splits)

lemma py_eq_sym: "py_eq a b \<Longrightarrow> py_eq b a"
  by (auto simp: py_eq_def split: option.splits)

lemma py_eq_trans: "py_eq a b \<Longrightarrow> py_eq b c \<Longrightarrow> py_eq a c"
  by (auto simp: py_eq_def split: option.splits)

lemma py_eq_left: "py_eq a b \<Longrightarrow> py_eq a = py_eq b"
  using py_eq_sym py_eq_trans by blast

lemma py_eq_right: "py_eq a b \<Longrightarrow> (\<lambda>w. py_eq w a) = (\<lambda>w. py_eq w b)"
  using py_eq_sym py_eq_trans by blast

lemma occurrences_eq: "py_eq a b \<Longrightarrow> occurrences a vs = occurrences b vs"
proof -
  assume "py_eq a b"
  then have "py_eq a = py_eq b" by (rule py_eq_left)
  then show ?thesis by (simp add: occurrences_def)
qed

lemma first_index_eq: "py_eq a b \<Longrightarrow> first_index a vs = first_index b vs"
proof -
  assume "py_eq a b"
  then have "(\<lambda>w. py_eq w a) = (\<lambda>w. py_eq w b)" by (rule py_eq_right)
  then have "(\<lambda>w. \<not> py_eq w a) = (\<lambda>w. \<not> py_eq w b)" by metis
  then show ?thesis by (simp add: first_index_def)
qed

lemma first_index_less: "(\<exists>w \<in> set vs. py_eq w k) \<Longrightarrow> first_index k vs < length vs"
  unfolding first_index_def by (induction vs) auto

lemma first_index_snoc_old:
  "(\<exists>w \<in> set vs. py_eq w k) \<Longrightarrow> first_index k (vs @ [v]) = first_index k vs"
  unfolding first_index_def by auto

lemma first_index_snoc_new:
  "(\<forall>w \<in> set vs. \<not> py_eq w v) \<Longrightarrow> first_index v (vs @ [v]) = length vs"
  unfolding first_index_def by (simp add: py_eq_refl)

lemma occurrences_snoc:
  "occurrences k (vs @ [v]) = occurrences k vs + (if py_eq k v then 1 else 0)"
  by (simp add: occurrences_def)


subsection \<open>The dictionary of versions\<close>

lemma versions_absent:
  "\<forall>x \<in> set h. \<not> py_eq (fst x) v \<Longrightarrow>
   versions_get h v d = d \<and> versions_set h v n = h @ [(v, n)]"
  by (induction h) auto

lemma versions_present:
  "\<exists>x \<in> set h. py_eq (fst x) v \<Longrightarrow>
   \<exists>h1 k c h2. h = h1 @ (k, c) # h2 \<and> py_eq k v \<and> (\<forall>x \<in> set h1. \<not> py_eq (fst x) v)
     \<and> versions_get h v d = c \<and> versions_set h v n = h1 @ (k, n) # h2"
proof (induction h)
  case Nil
  then show ?case by simp
next
  case (Cons x h)
  obtain k c where x: "x = (k, c)" by (cases x)
  show ?case
  proof (cases "py_eq k v")
    case True
    with x have "x # h = [] @ (k, c) # h \<and> py_eq k v \<and> (\<forall>x \<in> set []. \<not> py_eq (fst x) v)
      \<and> versions_get (x # h) v d = c \<and> versions_set (x # h) v n = [] @ (k, n) # h"
      by simp
    then show ?thesis by blast
  next
    case False
    with Cons.prems x have "\<exists>x \<in> set h. py_eq (fst x) v" by auto
    from Cons.IH [OF this] obtain h1 k' c' h2 where
      h: "h = h1 @ (k', c') # h2" "py_eq k' v" "\<forall>x \<in> set h1. \<not> py_eq (fst x) v"
         "versions_get h v d = c'" "versions_set h v n = h1 @ (k', n) # h2"
      by blast
    with False x have "x # h = (x # h1) @ (k', c') # h2 \<and> py_eq k' v
      \<and> (\<forall>y \<in> set (x # h1). \<not> py_eq (fst y) v)
      \<and> versions_get (x # h) v d = c' \<and> versions_set (x # h) v n = (x # h1) @ (k', n) # h2"
      by simp
    then show ?thesis by blast
  qed
qed


lemma histogram_step_new:
  assumes h: "histogram_of vs h" and new: "\<forall>x \<in> set h. \<not> py_eq (fst x) v"
  shows "histogram_of (vs @ [v]) (h @ [(v, 1)])"
proof -
  from h have a: "\<forall>x \<in> set h. fst x \<in> set vs \<and> snd x = occurrences (fst x) vs"
    and b: "\<forall>w \<in> set vs. \<exists>x \<in> set h. py_eq (fst x) w"
    and c: "sorted_wrt (\<lambda>a b. first_index a vs < first_index b vs) (map fst h)"
    by (simp_all add: histogram_of_def)
  have fresh: "\<not> py_eq w v" if "w \<in> set vs" for w
  proof
    assume "py_eq w v"
    moreover from b that obtain x where "x \<in> set h" "py_eq (fst x) w" by blast
    ultimately show False using new py_eq_trans by blast
  qed
  then have fresh': "\<forall>w \<in> set vs. \<not> py_eq v w" using py_eq_sym by blast
  then have "filter (py_eq v) vs = []" by (simp add: filter_empty_conv)
  then have occ_v: "occurrences v (vs @ [v]) = 1"
    by (simp add: occurrences_def py_eq_refl)
  have old: "first_index (fst x) (vs @ [v]) = first_index (fst x) vs
             \<and> first_index (fst x) vs < length vs" if "x \<in> set h" for x
  proof -
    from a that have "fst x \<in> set vs" by blast
    then have "\<exists>w \<in> set vs. py_eq w (fst x)" using py_eq_refl by blast
    then show ?thesis using first_index_snoc_old first_index_less by blast
  qed
  have last: "first_index v (vs @ [v]) = length vs"
    using fresh by (simp add: first_index_snoc_new)
  have A: "\<forall>x \<in> set (h @ [(v, 1)]).
             fst x \<in> set (vs @ [v]) \<and> snd x = occurrences (fst x) (vs @ [v])"
  proof
    fix x assume "x \<in> set (h @ [(v, 1)])"
    then consider "x \<in> set h" | "x = (v, 1)" by auto
    then show "fst x \<in> set (vs @ [v]) \<and> snd x = occurrences (fst x) (vs @ [v])"
    proof cases
      case 1
      with a new show ?thesis by (simp add: occurrences_snoc)
    next
      case 2
      with occ_v show ?thesis by simp
    qed
  qed
  have B: "\<forall>w \<in> set (vs @ [v]). \<exists>x \<in> set (h @ [(v, 1)]). py_eq (fst x) w"
  proof
    fix w assume "w \<in> set (vs @ [v])"
    then consider "w \<in> set vs" | "w = v" by auto
    then show "\<exists>x \<in> set (h @ [(v, 1)]). py_eq (fst x) w"
    proof cases
      case 1
      with b show ?thesis by auto
    next
      case 2
      then show ?thesis using py_eq_refl by auto
    qed
  qed
  have "sorted_wrt (\<lambda>a b. first_index a (vs @ [v]) < first_index b (vs @ [v])) (map fst h)"
    using c old by (auto elim!: sorted_wrt_mono_rel [rotated])
  then have C: "sorted_wrt (\<lambda>a b. first_index a (vs @ [v]) < first_index b (vs @ [v]))
                  (map fst (h @ [(v, 1)]))"
    using old last by (auto simp: sorted_wrt_append)
  from A B C show ?thesis unfolding histogram_of_def by blast
qed

lemma keys_apart:
  "sorted_wrt (\<lambda>a b. f a < (f b :: nat)) (map fst (h1 @ (k, c) # h2)) \<Longrightarrow>
   \<forall>x \<in> set h1 \<union> set h2. f (fst x) \<noteq> f k"
  by (auto simp: sorted_wrt_append)

lemma histogram_step_old:
  assumes h: "histogram_of vs (h1 @ (k, c) # h2)" and kv: "py_eq k v"
  shows "histogram_of (vs @ [v]) (h1 @ (k, c + 1) # h2)"
proof -
  let ?h = "h1 @ (k, c) # h2" and ?h' = "h1 @ (k, c + 1) # h2"
  from h have a: "\<forall>x \<in> set ?h. fst x \<in> set vs \<and> snd x = occurrences (fst x) vs"
    and b: "\<forall>w \<in> set vs. \<exists>x \<in> set ?h. py_eq (fst x) w"
    and c: "sorted_wrt (\<lambda>a b. first_index a vs < first_index b vs) (map fst ?h)"
    by (simp_all add: histogram_of_def)
  have keys: "map fst ?h' = map fst ?h" by simp
  have others: "\<not> py_eq (fst x) v" if "x \<in> set h1 \<union> set h2" for x
  proof
    assume "py_eq (fst x) v"
    with kv have "py_eq (fst x) k" using py_eq_sym py_eq_trans by blast
    then have "first_index (fst x) vs = first_index k vs" by (rule first_index_eq)
    with keys_apart [OF c] that show False by blast
  qed
  have old: "first_index a (vs @ [v]) = first_index a vs" if "a \<in> set (map fst ?h)" for a
  proof -
    from a that have "a \<in> set vs" by auto
    then have "\<exists>w \<in> set vs. py_eq w a" using py_eq_refl by blast
    then show ?thesis by (rule first_index_snoc_old)
  qed
  have A: "\<forall>x \<in> set ?h'. fst x \<in> set (vs @ [v]) \<and> snd x = occurrences (fst x) (vs @ [v])"
  proof
    fix x assume "x \<in> set ?h'"
    then consider "x \<in> set h1 \<union> set h2" | "x = (k, c + 1)" by auto
    then show "fst x \<in> set (vs @ [v]) \<and> snd x = occurrences (fst x) (vs @ [v])"
    proof cases
      case 1
      with a others show ?thesis by (auto simp: occurrences_snoc)
    next
      case 2
      from a have "k \<in> set vs" "c = occurrences k vs" by auto
      with 2 kv show ?thesis by (simp add: occurrences_snoc)
    qed
  qed
  have B: "\<forall>w \<in> set (vs @ [v]). \<exists>x \<in> set ?h'. py_eq (fst x) w"
  proof
    fix w assume "w \<in> set (vs @ [v])"
    then consider "w \<in> set vs" | "w = v" by auto
    then show "\<exists>x \<in> set ?h'. py_eq (fst x) w"
    proof cases
      case 1
      with b obtain x where x: "x \<in> set ?h" "py_eq (fst x) w" by blast
      then consider "x \<in> set ?h'" | "x = (k, c)" by auto
      then show ?thesis
      proof cases
        case 1
        with x show ?thesis by blast
      next
        case 2
        with x have "(k, c + 1) \<in> set ?h'" "py_eq (fst (k, c + 1)) w" by simp_all
        then show ?thesis by blast
      qed
    next
      case 2
      with kv show ?thesis by auto
    qed
  qed
  have "sorted_wrt (\<lambda>a b. first_index a (vs @ [v]) < first_index b (vs @ [v])) (map fst ?h)"
    using c old by (auto elim!: sorted_wrt_mono_rel [rotated])
  with keys have C: "sorted_wrt (\<lambda>a b. first_index a (vs @ [v]) < first_index b (vs @ [v]))
                       (map fst ?h')"
    by simp
  from A B C show ?thesis unfolding histogram_of_def by blast
qed

lemma histogram_step:
  assumes "histogram_of vs h"
  shows "histogram_of (vs @ [v]) (versions_set h v (versions_get h v 0 + 1))"
proof (cases "\<exists>x \<in> set h. py_eq (fst x) v")
  case True
  from versions_present [OF True, of 0 "versions_get h v 0 + 1"]
  obtain h1 k c h2 where h: "h = h1 @ (k, c) # h2" and kv: "py_eq k v"
    and g: "versions_get h v 0 = c"
    and s: "versions_set h v (versions_get h v 0 + 1) = h1 @ (k, versions_get h v 0 + 1) # h2"
    by blast
  from assms h have "histogram_of vs (h1 @ (k, c) # h2)" by simp
  from histogram_step_old [OF this kv] s g show ?thesis by simp
next
  case False
  then have new: "\<forall>x \<in> set h. \<not> py_eq (fst x) v" by blast
  from versions_absent [OF new] have "versions_get h v 0 = 0"
    and "versions_set h v 1 = h @ [(v, 1)]"
    by blast+
  then have "versions_set h v (versions_get h v 0 + 1) = h @ [(v, 1)]" by simp
  with histogram_step_new [OF assms new] show ?thesis by simp
qed

lemma versions_loop_histogram:
  "versions_loop ks h = Inr h' \<Longrightarrow> histogram_of vs h \<Longrightarrow>
   histogram_of (vs @ map version_of ks) h'"
proof (induction ks arbitrary: h vs)
  case Nil
  then show ?case by simp
next
  case (Cons kext ks)
  from Cons.prems(1) obtain v where
    v: "kext_get kext ''version'' (PStr ''N/A'') = Inr v" and
    rest: "versions_loop ks (versions_set h v (versions_get h v 0 + 1)) = Inr h'"
    by (auto split: sum.splits if_splits)
  from v have "version_of kext = v" by (cases kext) (simp_all add: version_of_def)
  moreover from Cons.prems(2)
  have "histogram_of (vs @ [v]) (versions_set h v (versions_get h v 0 + 1))"
    by (rule histogram_step)
  from Cons.IH [OF rest this] have "histogram_of ((vs @ [v]) @ map version_of ks) h'" .
  ultimately show ?case by simp
qed


subsection \<open>The sort\<close>

lemma insort_ranked:
  fixes f :: "'a \<Rightarrow> int"
  assumes "sorted_wrt (\<lambda>x y. f x < f y \<or> (f x = f y \<and> R x y)) l"
    and "\<forall>z \<in> set l. R x z"
  shows "sorted_wrt (\<lambda>x y. f x < f y \<or> (f x = f y \<and> R x y)) (insort_key f x l)"
  using assms
proof (induction l)
  case Nil
  then show ?case by simp
next
  case (Cons y ys)
  show ?case
  proof (cases "f x \<le> f y")
    case True
    have "f x < f z \<or> (f x = f z \<and> R x z)" if "z \<in> set (y # ys)" for z
    proof -
      from Cons.prems(1) that have "f y \<le> f z" by auto
      with True have "f x \<le> f z" by simp
      moreover from Cons.prems(2) that have "R x z" by blast
      ultimately show ?thesis by auto
    qed
    with True Cons.prems(1) show ?thesis by simp
  next
    case False
    from Cons.prems have "sorted_wrt (\<lambda>x y. f x < f y \<or> (f x = f y \<and> R x y)) (insort_key f x ys)"
      by (intro Cons.IH) simp_all
    with False Cons.prems(1) show ?thesis by (auto simp: set_insort_key)
  qed
qed

lemma sort_key_ranked:
  fixes f :: "'a \<Rightarrow> int"
  shows "sorted_wrt R h \<Longrightarrow>
         sorted_wrt (\<lambda>x y. f x < f y \<or> (f x = f y \<and> R x y)) (sort_key f h)"
proof (induction h)
  case Nil
  then show ?case by simp
next
  case (Cons x h)
  then have "sorted_wrt (\<lambda>x y. f x < f y \<or> (f x = f y \<and> R x y)) (sort_key f h)"
    and "\<forall>z \<in> set (sort_key f h). R x z"
    by simp_all
  then show ?case by (simp add: insort_ranked)
qed

lemma ranked_histogram:
  assumes "histogram_of vs h"
  shows "sorted_wrt (ranks_before vs) (sort_key (\<lambda>x. - int (snd x)) h)"
proof -
  from assms have "sorted_wrt (\<lambda>x y. first_index (fst x) vs < first_index (fst y) vs) h"
    by (simp add: histogram_of_def sorted_wrt_map)
  from sort_key_ranked [OF this, of "\<lambda>x. - int (snd x)"]
  show ?thesis
    by (rule sorted_wrt_mono_rel [rotated]) (auto simp: ranks_before_def)
qed

lemma top_versions_histogram:
  assumes "analyze_kexts data = Inr a"
  shows "\<exists>h. histogram_of (versions_of data) h \<and> top_versions a = top_versions_of h"
proof -
  from assms obtain h where h: "versions_loop (map snd data) [] = Inr h"
    and top: "top_versions a = top_versions_of h"
    by (auto simp: analyze_kexts_def split: sum.splits)
  have "histogram_of [] []" by (simp add: histogram_of_def)
  from versions_loop_histogram [OF h this] have "histogram_of (versions_of data) h"
    by (simp add: versions_of_def comp_def)
  with top show ?thesis by blast
qed

text \<open>
  C7. When the analysis of a dataset returns, \<^verbatim>\<open>top_versions\<close> has at most five
  entries; every entry is a version with the number of records that have it (a record
  without a version counting for "N/A"); the entries are in rank order, highest count
  first and, among equal counts, the version met first; and every version of the
  dataset that is not reported ranks after all five reported ones. Over the versions
  1.0, 1.0, 2.0 the entries are ("1.0", 2), then ("2.0", 1).
\<close>

theorem top_versions_ranked:
  "(analyze_kexts data = Inr a \<longrightarrow>
      length (top_versions a) \<le> 5
      \<and> (\<forall>x \<in> set (top_versions a).
            snd x = occurrences (fst x) (versions_of data) \<and> 0 < snd x)
      \<and> sorted_wrt (ranks_before (versions_of data)) (top_versions a)
      \<and> (\<forall>v \<in> set (versions_of data).
            (\<exists>x \<in> set (top_versions a). py_eq (fst x) v)
            \<or> (length (top_versions a) = 5
                \<and> (\<forall>x \<in> set (top_versions a).
                      ranks_before (versions_of data) x (v, occurrences v (versions_of data))))))
   \<and> map_sum id top_versions
        (analyze_kexts [(''com.x.a'', PDict [(''version'', PStr ''1.0'')]),
                        (''com.x.b'', PDict [(''version'', PStr ''1.0'')]),
                        (''com.x.c'', PDict [(''version'', PStr ''2.0'')])])
       = Inr [(PStr ''1.0'', 2), (PStr ''2.0'', 1)]"
proof (intro conjI impI)
  let ?vs = "versions_of data"
  assume "analyze_kexts data = Inr a"
  then obtain h where h: "histogram_of ?vs h" and top: "top_versions a = top_versions_of h"
    using top_versions_histogram by blast
  let ?l = "sort_key (\<lambda>x. - int (snd x)) h"
  from top have top': "top_versions a = take 5 ?l" by (simp add: top_versions_of_def)
  have set_l: "set ?l = set h" by simp
  have ranked: "sorted_wrt (ranks_before ?vs) ?l" using h by (rule ranked_histogram)
  from h have a: "\<forall>x \<in> set h. fst x \<in> set ?vs \<and> snd x = occurrences (fst x) ?vs"
    and b: "\<forall>v \<in> set ?vs. \<exists>x \<in> set h. py_eq (fst x) v"
    by (simp_all add: histogram_of_def)
  show "length (top_versions a) \<le> 5" using top' by simp
  show "\<forall>x \<in> set (top_versions a). snd x = occurrences (fst x) ?vs \<and> 0 < snd x"
  proof
    fix x assume "x \<in> set (top_versions a)"
    with top' have "x \<in> set h" using set_l by (auto dest: in_set_takeD)
    with a have k: "fst x \<in> set ?vs" and c: "snd x = occurrences (fst x) ?vs" by auto
    from k have "\<exists>w \<in> set ?vs. py_eq (fst x) w" using py_eq_refl by blast
    then have "filter (py_eq (fst x)) ?vs \<noteq> []"
      by (simp add: filter_empty_conv)
    then have "0 < occurrences (fst x) ?vs" by (simp add: occurrences_def)
    with c show "snd x = occurrences (fst x) ?vs \<and> 0 < snd x" by simp
  qed
  show "sorted_wrt (ranks_before ?vs) (top_versions a)"
    using ranked top' by simp
  show "\<forall>v \<in> set ?vs.
          (\<exists>x \<in> set (top_versions a). py_eq (fst x) v)
          \<or> (length (top_versions a) = 5
              \<and> (\<forall>x \<in> set (top_versions a). ranks_before ?vs x (v, occurrences v ?vs)))"
  proof
    fix v assume "v \<in> set ?vs"
    with b obtain y where y: "y \<in> set h" and yv: "py_eq (fst y) v" by blast
    have "set ?l = set (take 5 ?l) \<union> set (drop 5 ?l)"
      by (metis append_take_drop_id set_append)
    with y set_l have "y \<in> set (take 5 ?l) \<union> set (drop 5 ?l)" by blast
    then consider "y \<in> set (take 5 ?l)" | "y \<in> set (drop 5 ?l)" by blast
    then show "(\<exists>x \<in> set (top_versions a). py_eq (fst x) v)
          \<or> (length (top_versions a) = 5
              \<and> (\<forall>x \<in> set (top_versions a). ranks_before ?vs x (v, occurrences v ?vs)))"
    proof cases
      case 1
      with yv top' show ?thesis by auto
    next
      case 2
      then have "drop 5 ?l \<noteq> []" by auto
      then have len: "length (top_versions a) = 5" using top' by simp
      from ranked have "sorted_wrt (ranks_before ?vs) (take 5 ?l @ drop 5 ?l)"
        by (simp only: append_take_drop_id)
      then have "\<forall>x \<in> set (take 5 ?l). ranks_before ?vs x y"
        using 2 unfolding sorted_wrt_append by blast
      moreover from a y have "snd y = occurrences (fst y) ?vs" by blast
      moreover from yv have "occurrences (fst y) ?vs = occurrences v ?vs"
        and "first_index (fst y) ?vs = first_index v ?vs"
        by (simp_all add: occurrences_eq first_index_eq)
      ultimately have "\<forall>x \<in> set (top_versions a). ranks_before ?vs x (v, occurrences v ?vs)"
        using top' by (simp add: ranks_before_def)
      with len show ?thesis by blast
    qed
  qed
next
  have c: "category_of b (PDict [(''version'', PStr v)]) = Inr Other" if "b \<in> {''com.x.a'', ''com.x.b'', ''com.x.c''}" for b v
    using that by (auto simp: category_of_def dict_get_def categorize_def lower_def lower_char_def)
  show "map_sum id top_versions
        (analyze_kexts [(''com.x.a'', PDict [(''version'', PStr ''1.0'')]),
                        (''com.x.b'', PDict [(''version'', PStr ''1.0'')]),
                        (''com.x.c'', PDict [(''version'', PStr ''2.0'')])])
       = Inr [(PStr ''1.0'', 2), (PStr ''2.0'', 1)]"
    by (simp add: analyze_kexts_def c dict_get_def py_eq_def top_versions_of_def)
qed

text \<open>
  Four records, the last without a version: "2.0" and "N/A" have one record each, and
  "2.0", met first, comes first.
\<close>

theorem top_versions_ranked_witness:
  "map_sum id top_versions
     (analyze_kexts [(''com.x.a'', PDict [(''version'', PStr ''1.0'')]),
                     (''com.x.b'', PDict [(''version'', PStr ''2.0'')]),
                     (''com.x.c'', PDict [(''version'', PStr ''1.0'')]),
                     (''com.x.d'', PDict [(''name'', PStr ''Widget'')])])
     = Inr [(PStr ''1.0'', 2), (PStr ''2.0'', 1), (PStr ''N/A'', 1)]
   \<and> sorted_wrt
        (ranks_before
           (versions_of [(''com.x.a'', PDict [(''version'', PStr ''1.0'')]),
                         (''com.x.b'', PDict [(''version'', PStr ''2.0'')]),
                         (''com.x.c'', PDict [(''version'', PStr ''1.0'')]),
                         (''com.x.d'', PDict [(''name'', PStr ''Widget'')])]))
        [(PStr ''1.0'', 2), (PStr ''2.0'', 1), (PStr ''N/A'', 1)]"
proof -
  let ?data = "[(''com.x.a'', PDict [(''version'', PStr ''1.0'')]),
                (''com.x.b'', PDict [(''version'', PStr ''2.0'')]),
                (''com.x.c'', PDict [(''version'', PStr ''1.0'')]),
                (''com.x.d'', PDict [(''name'', PStr ''Widget'')])]"
  have c: "category_of b (PDict [(''version'', PStr v)]) = Inr Other"
    if "b \<in> {''com.x.a'', ''com.x.b'', ''com.x.c''}" for b v
    using that
    by (auto simp: category_of_def dict_get_def categorize_def lower_def lower_char_def)
  have d: "category_of ''com.x.d'' (PDict [(''name'', PStr ''Widget'')]) = Inr Other"
    by (simp add: category_of_def dict_get_def categorize_def lower_def lower_char_def)
  have "\<exists>a. analyze_kexts ?data = Inr a
          \<and> top_versions a = [(PStr ''1.0'', 2), (PStr ''2.0'', 1), (PStr ''N/A'', 1)]"
    by (simp add: analyze_kexts_def c d dict_get_def py_eq_def top_versions_of_def)
  then show ?thesis
  proof (elim exE conjE)
    fix a
    assume a: "analyze_kexts ?data = Inr a"
      and t: "top_versions a = [(PStr ''1.0'', 2), (PStr ''2.0'', 1), (PStr ''N/A'', 1)]"
    from top_versions_ranked [of ?data a, THEN conjunct1, THEN mp, OF a]
    have "sorted_wrt (ranks_before (versions_of ?data)) (top_versions a)"
      by (elim conjE)
    with t have "sorted_wrt (ranks_before (versions_of ?data))
                   [(PStr ''1.0'', 2), (PStr ''2.0'', 1), (PStr ''N/A'', 1)]"
      by simp
    moreover from a t have "map_sum id top_versions (analyze_kexts ?data)
        = Inr [(PStr ''1.0'', 2), (PStr ''2.0'', 1), (PStr ''N/A'', 1)]"
      by simp
    ultimately show ?thesis by (rule conjI [rotated])
  qed
qed

end
